theory Spec2Isabelle
  imports Complex_Main
begin

section \<open>RangeIterator: the iteration cursor of nodes.py\<close>

text \<open>
  A shallow embedding of \<^verbatim>\<open>RangeIterator.range_iterator\<close> (src/nodes/nodes.py).
  The instance attributes become the record \<open>cursor_state\<close>, the call's arguments the
  record \<open>iter_args\<close>, and every call returns its outcome (an exception or the output triple)
  together with the attributes as the call leaves them: a Python exception does not
  undo the assignments made before it.
\<close>

subsection \<open>Values, exceptions and builtins\<close>

text \<open>
  A Python float is a finite rational, an infinity or NaN (every IEEE double is one of
  these); the elements of a value list are ints or floats.
\<close>

datatype pyfloat = Finite rat | PosInf | NegInf | NaN

datatype pyval = IntV int | FloatV pyfloat

datatype pyerr = ValueError | OverflowError | IndexError | UnboundLocalError

text \<open>
  Two builtins are not fixed by the source: \<^verbatim>\<open>float(s)\<close> on a string (the decimal to
  binary rounding of the platform; \<open>None\<close> is its ValueError) and
  \<^verbatim>\<open>hash(str(value_list))\<close> (salted per process). The model takes both as
  parameters, so that a theorem about every \<open>builtins\<close> holds for the interpreter's.
\<close>

record builtins =
  py_float :: "string \<Rightarrow> pyfloat option"
  py_hash :: "pyval list \<Rightarrow> int"

text \<open>\<^verbatim>\<open>str.strip()\<close>: whitespace is removed at both ends.\<close>

definition is_space :: "char \<Rightarrow> bool" where
  "is_space c = (let n = (of_char c :: nat) in
     (9 \<le> n \<and> n \<le> 13) \<or> (28 \<le> n \<and> n \<le> 32) \<or> n = 133 \<or> n = 160)"

definition py_strip :: "string \<Rightarrow> string" where
  "py_strip s = rev (dropWhile is_space (rev (dropWhile is_space s)))"

text \<open>\<^verbatim>\<open>s.split(',')\<close>: always at least one element.\<close>

fun split_comma :: "string \<Rightarrow> string list" where
  "split_comma [] = [[]]"
| "split_comma (c # cs) =
     (if c = CHR '','' then [] # split_comma cs
      else (case split_comma cs of
              [] \<Rightarrow> [[c]]
            | x # xs \<Rightarrow> (c # x) # xs))"

text \<open>\<^verbatim>\<open>int(x)\<close> on a float truncates towards zero; it raises on NaN and on infinities.\<close>

definition py_trunc :: "rat \<Rightarrow> int" where
  "py_trunc q = (if 0 \<le> q then \<lfloor>q\<rfloor> else \<lceil>q\<rceil>)"

fun int_of_float :: "pyfloat \<Rightarrow> pyerr + int" where
  "int_of_float (Finite q) = Inr (py_trunc q)"
| "int_of_float NaN = Inl ValueError"
| "int_of_float PosInf = Inl OverflowError"
| "int_of_float NegInf = Inl OverflowError"

text \<open>\<^verbatim>\<open>x == n\<close> for a float \<open>x\<close> and an int \<open>n\<close> compares the exact values.\<close>

fun float_eq_int :: "pyfloat \<Rightarrow> int \<Rightarrow> bool" where
  "float_eq_int (Finite q) n = (q = of_int n)"
| "float_eq_int _ n = False"

text \<open>\<^verbatim>\<open>int(x) if x == int(x) else x\<close>\<close>

definition normalize_number :: "pyfloat \<Rightarrow> pyerr + pyval" where
  "normalize_number x =
     (case int_of_float x of
        Inl e \<Rightarrow> Inl e
      | Inr n \<Rightarrow> if float_eq_int x n then Inr (IntV n) else Inr (FloatV x))"

text \<open>A list comprehension whose element expression may raise: the first exception wins.\<close>

fun map_raise :: "('a \<Rightarrow> pyerr + 'b) \<Rightarrow> 'a list \<Rightarrow> pyerr + 'b list" where
  "map_raise f [] = Inr []"
| "map_raise f (x # xs) =
     (case f x of
        Inl e \<Rightarrow> Inl e
      | Inr y \<Rightarrow> (case map_raise f xs of Inl e \<Rightarrow> Inl e | Inr ys \<Rightarrow> Inr (y # ys)))"

text \<open>\<^verbatim>\<open>xs[i]\<close> on a list: a negative index counts from the end.\<close>

definition py_getitem :: "'a list \<Rightarrow> int \<Rightarrow> pyerr + 'a" where
  "py_getitem xs i =
     (let n = int (length xs) in
      if 0 \<le> i \<and> i < n then Inr (xs ! nat i)
      else if - n \<le> i \<and> i < 0 then Inr (xs ! nat (n + i))
      else Inl IndexError)"

subsection \<open>State and arguments\<close>

record cursor_state =
  current_index :: "int option"
  direction :: int
  cycle_completed :: bool
  prev_custom_values :: string
  prev_start :: "int option"
  prev_end :: "int option"
  prev_step :: "int option"
  prev_mode :: "string option"
  prev_value_list_hash :: "int option"

text \<open>\<^verbatim>\<open>__init__\<close>\<close>

definition init :: cursor_state where
  "init = \<lparr> current_index = None, direction = 1, cycle_completed = False,
            prev_custom_values = [], prev_start = None, prev_end = None,
            prev_step = None, prev_mode = None, prev_value_list_hash = None \<rparr>"

text \<open>The arguments of \<^verbatim>\<open>range_iterator\<close>; \<open>end_arg\<close> is the parameter \<^verbatim>\<open>end\<close>.\<close>

record iter_args =
  start :: int
  end_arg :: int
  step :: int
  reset_counter :: bool
  custom_values :: string
  mode :: string
  value_list :: "pyval list option"

subsection \<open>The phases of range\_iterator\<close>

text \<open>Lines 116 to 154: the reset flag and the updated snapshot.\<close>

definition detect_changes :: "builtins \<Rightarrow> cursor_state \<Rightarrow> iter_args \<Rightarrow> bool \<times> cursor_state" where
  "detect_changes B st a =
     (let r0 = reset_counter a;
          (r1, s1) = (if custom_values a \<noteq> prev_custom_values st
                      then (True, st\<lparr>prev_custom_values := custom_values a\<rparr>) else (r0, st));
          (r2, s2) = (if Some (start a) \<noteq> prev_start s1
                      then (True, s1\<lparr>prev_start := Some (start a)\<rparr>) else (r1, s1));
          (r3, s3) = (if Some (end_arg a) \<noteq> prev_end s2
                      then (True, s2\<lparr>prev_end := Some (end_arg a)\<rparr>) else (r2, s2));
          (r4, s4) = (if Some (step a) \<noteq> prev_step s3
                      then (True, s3\<lparr>prev_step := Some (step a)\<rparr>) else (r3, s3));
          (r5, s5) = (if Some (mode a) \<noteq> prev_mode s4
                      then (True, s4\<lparr>prev_mode := Some (mode a)\<rparr>) else (r4, s4))
      in case value_list a of
           None \<Rightarrow> (r5, s5)
         | Some vl \<Rightarrow>
             (let current_hash = py_hash B vl in
              if Some current_hash \<noteq> prev_value_list_hash s5
              then (True, s5\<lparr>prev_value_list_hash := Some current_hash\<rparr>) else (r5, s5)))"

text \<open>
  Lines 158 to 170: the parse of \<open>custom_values\<close>. The \<^verbatim>\<open>try\<close> catches ValueError
  only; any other exception leaves the function.
\<close>

definition parse_custom_values :: "builtins \<Rightarrow> string \<Rightarrow> pyerr + pyval list option" where
  "parse_custom_values B cv =
     (if cv \<noteq> [] \<and> py_strip cv \<noteq> [] then
        (case map_raise (\<lambda>x. case py_float B (py_strip x) of
                                None \<Rightarrow> Inl ValueError | Some f \<Rightarrow> Inr f) (split_comma cv) of
           Inl e \<Rightarrow> (if e = ValueError then Inr None else Inl e)
         | Inr fs \<Rightarrow>
             (case map_raise normalize_number fs of
                Inl e \<Rightarrow> (if e = ValueError then Inr None else Inl e)
              | Inr vs \<Rightarrow> Inr (Some vs)))
      else Inr None)"

text \<open>
  Lines 156 to 177: the active value list, the effective \<^verbatim>\<open>end\<close> and \<open>using_list\<close>.
\<close>

definition resolve_source ::
  "builtins \<Rightarrow> iter_args \<Rightarrow> pyerr + (pyval list option \<times> int \<times> bool)" where
  "resolve_source B a =
     (case parse_custom_values B (custom_values a) of
        Inl e \<Rightarrow> Inl e
      | Inr custom_list \<Rightarrow>
          (let end' = (case custom_list of
                         Some l \<Rightarrow> int (length l) - 1 | None \<Rightarrow> end_arg a);
               vl = (case custom_list of Some l \<Rightarrow> Some l | None \<Rightarrow> value_list a);
               using_list = (case vl of Some l \<Rightarrow> length l > 0 | None \<Rightarrow> False)
           in Inr (vl, end', using_list)))"

text \<open>Lines 180 to 184: the index the call works with, and the state holding it.\<close>

definition init_or_reset :: "bool \<Rightarrow> int \<Rightarrow> cursor_state \<Rightarrow> int \<times> cursor_state" where
  "init_or_reset should_reset start_v st =
     (case current_index st of
        None \<Rightarrow> (start_v, st\<lparr>current_index := Some start_v, direction := 1,
                             cycle_completed := False\<rparr>)
      | Some i \<Rightarrow>
          if should_reset
          then (start_v, st\<lparr>current_index := Some start_v, direction := 1,
                            cycle_completed := False\<rparr>)
          else (i, st))"

text \<open>The list behind an optional list; it is read only where \<open>using_list\<close> holds.\<close>

definition list_of :: "'a list option \<Rightarrow> 'a list" where
  "list_of vl = (case vl of None \<Rightarrow> [] | Some l \<Rightarrow> l)"

text \<open>Lines 187 to 190: with a list, an index beyond its end is moved to its end.\<close>

definition clamp_to_list ::
  "bool \<Rightarrow> pyval list option \<Rightarrow> int \<times> cursor_state \<Rightarrow> int \<times> cursor_state" where
  "clamp_to_list using_list vl p =
     (case p of (i, st) \<Rightarrow>
        if using_list then
          (let list_end = int (length (list_of vl)) - 1 in
           if i > list_end then (list_end, st\<lparr>current_index := Some list_end\<rparr>) else (i, st))
        else (i, st))"

text \<open>Lines 195 to 200 and 276 to 279: the value at an index.\<close>

definition value_at :: "bool \<Rightarrow> pyval list option \<Rightarrow> int \<Rightarrow> pyerr + pyval" where
  "value_at using_list vl i =
     (if using_list then py_getitem (list_of vl) i else Inr (IntV i))"

text \<open>
  Lines 203 to 270: the next index, the direction and the completion flag. The bounds
  are (0, list\_end) with a list and (start, end) without. A mode that is none of the
  three assigns nothing, and line 273 then raises UnboundLocalError.
\<close>

definition next_step ::
  "string \<Rightarrow> bool \<Rightarrow> int \<Rightarrow> int \<Rightarrow> int \<Rightarrow> int \<Rightarrow> int \<Rightarrow> int
     \<Rightarrow> pyerr + (int \<times> int \<times> bool)" where
  "next_step m using_list len start_v end_v step_v i d =
     (let list_end = len - 1 in
      if m = ''cycle'' then
        (let next_index = i + step_v * d in
         if using_list then
           (if next_index > list_end then Inr (next_index mod len, d, True)
            else Inr (next_index, d, False))
         else
           (if next_index > end_v then Inr (start_v, d, True)
            else Inr (next_index, d, False)))
      else if m = ''bounce'' then
        (let next_index = i + step_v * d in
         if using_list then
           (if next_index > list_end then Inr (list_end - (next_index - list_end), - 1, False)
            else if next_index < 0 then Inr (0 + (0 - next_index), 1, True)
            else Inr (next_index, d, False))
         else
           (if next_index > end_v then Inr (end_v - (next_index - end_v), - 1, False)
            else if next_index < start_v then Inr (start_v + (start_v - next_index), 1, True)
            else Inr (next_index, d, False)))
      else if m = ''once'' then
        (let next_index = i + step_v in
         if using_list then
           (if next_index > list_end then Inr (list_end, d, True)
            else Inr (next_index, d, False))
         else
           (if next_index > end_v then Inr (end_v, d, True)
            else Inr (next_index, d, False)))
      else Inl UnboundLocalError)"

subsection \<open>range\_iterator\<close>

text \<open>
  Lines 116 to 190, everything before the current value is read: either the parse
  raised (the snapshot is already updated), or the call holds its source, the
  effective \<^verbatim>\<open>end\<close>, \<open>using_list\<close>, and the index it starts from.
\<close>

definition before_step ::
  "builtins \<Rightarrow> cursor_state \<Rightarrow> iter_args
     \<Rightarrow> pyerr \<times> cursor_state + pyval list option \<times> int \<times> bool \<times> int \<times> cursor_state" where
  "before_step B st a =
     (case detect_changes B st a of (should_reset, st1) \<Rightarrow>
        (case resolve_source B a of
           Inl e \<Rightarrow> Inl (e, st1)
         | Inr (vl, end', using_list) \<Rightarrow>
             Inr (vl, end', using_list,
                  clamp_to_list using_list vl (init_or_reset should_reset (start a) st1))))"

text \<open>Lines 192 to 285: read the current value, step, commit, read the next value.\<close>

definition step_from ::
  "iter_args \<Rightarrow> pyval list option \<Rightarrow> int \<Rightarrow> bool \<Rightarrow> int \<Rightarrow> cursor_state
     \<Rightarrow> (pyerr + pyval \<times> pyval \<times> bool) \<times> cursor_state" where
  "step_from a vl end' using_list i st3 =
     (case value_at using_list vl i of
        Inl e \<Rightarrow> (Inl e, st3)
      | Inr current_value \<Rightarrow>
          (case next_step (mode a) using_list (int (length (list_of vl)))
                  (start a) end' (step a) i (direction st3) of
             Inl e \<Rightarrow> (Inl e, st3)
           | Inr (next_index, d, cc) \<Rightarrow>
               (let st4 = st3\<lparr>direction := d, cycle_completed := cc,
                              current_index := Some next_index\<rparr> in
                case value_at using_list vl next_index of
                  Inl e \<Rightarrow> (Inl e, st4)
                | Inr next_value \<Rightarrow> (Inr (current_value, next_value, cc), st4))))"

definition range_iterator ::
  "builtins \<Rightarrow> cursor_state \<Rightarrow> iter_args \<Rightarrow> (pyerr + pyval \<times> pyval \<times> bool) \<times> cursor_state" where
  "range_iterator B st a =
     (case before_step B st a of
        Inl (e, st1) \<Rightarrow> (Inl e, st1)
      | Inr (vl, end', using_list, i, st3) \<Rightarrow> step_from a vl end' using_list i st3)"

text \<open>
  The bounds of the step computation: (0, list\_end) with a list, (start, end) without.
\<close>

definition lower_bound :: "bool \<Rightarrow> int \<Rightarrow> int" where
  "lower_bound using_list start_v = (if using_list then 0 else start_v)"

definition upper_bound :: "bool \<Rightarrow> pyval list option \<Rightarrow> int \<Rightarrow> int" where
  "upper_bound using_list vl end_v =
     (if using_list then int (length (list_of vl)) - 1 else end_v)"

subsection \<open>A reference instance of the builtins\<close>

text \<open>
  For evaluating calls on concrete inputs: \<open>decimal_float\<close> reads the plain decimal
  literals of \<^verbatim>\<open>float\<close> (an optional sign, digits with an optional fraction) and the
  words inf, infinity and nan, and rejects every other string; \<open>list_hash\<close> is a
  polynomial fingerprint of the elements.
\<close>

fun digits_value :: "string \<Rightarrow> nat option" where
  "digits_value [] = Some 0"
| "digits_value (c # cs) =
     (let n = (of_char c :: nat) in
      if 48 \<le> n \<and> n \<le> 57 then
        (case digits_value cs of
           None \<Rightarrow> None
         | Some v \<Rightarrow> Some ((n - 48) * 10 ^ length cs + v))
      else None)"

definition unsigned_float :: "string \<Rightarrow> pyfloat option" where
  "unsigned_float s =
     (if s = ''inf'' \<or> s = ''infinity'' then Some PosInf
      else if s = ''nan'' then Some NaN
      else
        (let ip = takeWhile (\<lambda>c. c \<noteq> CHR ''.'') s;
             fp = drop 1 (dropWhile (\<lambda>c. c \<noteq> CHR ''.'') s) in
         if ip = [] \<and> fp = [] then None
         else (case (digits_value ip, digits_value fp) of
                 (Some a, Some b) \<Rightarrow>
                   Some (Finite (of_nat a + of_nat b / of_nat (10 ^ length fp)))
               | _ \<Rightarrow> None)))"

fun negate_float :: "pyfloat \<Rightarrow> pyfloat" where
  "negate_float (Finite q) = Finite (- q)"
| "negate_float PosInf = NegInf"
| "negate_float NegInf = PosInf"
| "negate_float NaN = NaN"

definition decimal_float :: "string \<Rightarrow> pyfloat option" where
  "decimal_float s =
     (case py_strip s of
        [] \<Rightarrow> None
      | c # cs \<Rightarrow>
          if c = CHR ''-'' then map_option negate_float (unsigned_float cs)
          else if c = CHR ''+'' then unsigned_float cs
          else unsigned_float (c # cs))"

fun value_code :: "pyval \<Rightarrow> int" where
  "value_code (IntV n) = 2 * n"
| "value_code (FloatV (Finite q)) = 2 * \<lfloor>q\<rfloor> + 1"
| "value_code (FloatV _) = - 1"

definition list_hash :: "pyval list \<Rightarrow> int" where
  "list_hash vl = foldl (\<lambda>h v. 31 * h + value_code v) 7 vl"

definition ref_builtins :: builtins where
  "ref_builtins = \<lparr> py_float = decimal_float, py_hash = list_hash \<rparr>"

text \<open>The host calls the node once per workflow run: a sequence of calls on one instance.\<close>

fun run_calls ::
  "builtins \<Rightarrow> cursor_state \<Rightarrow> iter_args list
     \<Rightarrow> (pyerr + pyval \<times> pyval \<times> bool) list \<times> cursor_state" where
  "run_calls B st [] = ([], st)"
| "run_calls B st (a # as) =
     (case range_iterator B st a of (r, st') \<Rightarrow>
        (case run_calls B st' as of (rs, st'') \<Rightarrow> (r # rs, st'')))"

subsection \<open>Calls used as examples\<close>

definition cycle_args :: iter_args where
  "cycle_args = \<lparr> start = 0, end_arg = 10, step = 1, reset_counter = False,
                   custom_values = [], mode = ''cycle'', value_list = None \<rparr>"

definition bounce_list_args :: iter_args where
  "bounce_list_args = \<lparr> start = 0, end_arg = 10, step = 5, reset_counter = False,
                         custom_values = [], mode = ''bounce'',
                         value_list = Some [IntV 1, IntV 2] \<rparr>"

definition once_args :: iter_args where
  "once_args = \<lparr> start = 0, end_arg = 3, step = 1, reset_counter = False,
                  custom_values = [], mode = ''once'', value_list = None \<rparr>"

text \<open>The snapshot of the five compared arguments is the one of the call \<open>a\<close>.\<close>

definition snapshot_matches :: "cursor_state \<Rightarrow> iter_args \<Rightarrow> bool" where
  "snapshot_matches st a =
     (prev_custom_values st = custom_values a \<and> prev_start st = Some (start a)
      \<and> prev_end st = Some (end_arg a) \<and> prev_step st = Some (step a)
      \<and> prev_mode st = Some (mode a))"

text \<open>The state of an instance after three calls with \<open>cycle_args\<close>.\<close>

definition cycle_st3 :: cursor_state where
  "cycle_st3 = snd (run_calls ref_builtins init [cycle_args, cycle_args, cycle_args])"

definition custom_args :: iter_args where
  "custom_args = \<lparr> start = 0, end_arg = 10, step = 1, reset_counter = False,
                    custom_values = ''1,2,3'', mode = ''cycle'', value_list = None \<rparr>"

definition empty_list_args :: iter_args where
  "empty_list_args = \<lparr> start = 0, end_arg = 10, step = 1, reset_counter = False,
                        custom_values = [], mode = ''cycle'', value_list = Some [] \<rparr>"

definition clamp_args :: iter_args where
  "clamp_args = \<lparr> start = 5, end_arg = 10, step = 1, reset_counter = False,
                   custom_values = [], mode = ''cycle'',
                   value_list = Some [IntV 1, IntV 2, IntV 3] \<rparr>"

definition inverted_list_args :: iter_args where
  "inverted_list_args = \<lparr> start = 5, end_arg = 1, step = 1, reset_counter = False,
       custom_values = [], mode = ''bounce'',
       value_list = Some [IntV 0, IntV 1, IntV 2, IntV 3, IntV 4, IntV 5] \<rparr>"

definition inverted_range_args :: iter_args where
  "inverted_range_args = inverted_list_args\<lparr>value_list := None\<rparr>"

definition inverted_state :: cursor_state where
  "inverted_state = snd (range_iterator ref_builtins init inverted_list_args)"

definition bounce_args :: iter_args where
  "bounce_args = \<lparr> start = 0, end_arg = 5, step = 2, reset_counter = False,
                    custom_values = [], mode = ''bounce'', value_list = None \<rparr>"

definition bounce_st2 :: cursor_state where
  "bounce_st2 = snd (run_calls ref_builtins init (replicate 2 bounce_args))"

definition bounce_st5 :: cursor_state where
  "bounce_st5 = snd (run_calls ref_builtins init (replicate 5 bounce_args))"

definition switch_list_args :: iter_args where
  "switch_list_args = \<lparr> start = 2, end_arg = 3, step = 1, reset_counter = False,
       custom_values = [], mode = ''cycle'',
       value_list = Some [IntV 7, IntV 8, IntV 9] \<rparr>"

definition switch_range_args :: iter_args where
  "switch_range_args = switch_list_args\<lparr>value_list := None\<rparr>"

definition switch_state :: cursor_state where
  "switch_state = snd (range_iterator ref_builtins init switch_list_args)"

text \<open>The state of an instance after one call with \<open>clamp_args\<close>.\<close>

definition clamp_state :: cursor_state where
  "clamp_state = snd (range_iterator ref_builtins init clamp_args)"

section \<open>Properties\<close>

lemmas phase_defs =
  range_iterator_def before_step_def step_from_def detect_changes_def resolve_source_def
  parse_custom_values_def init_or_reset_def clamp_to_list_def value_at_def next_step_def
  list_of_def py_getitem_def

subsection \<open>Exceptions\<close>

text \<open>
  Claim C1 says that every call returns a triple and that every index used to read the
  active list is a valid position. The code does not keep that promise: in bounce mode
  the reflected index is not checked again. With the list [1, 2] and step 5 the first
  call of a fresh instance computes 0 + 5 = 5 > 1, reflects it to 1 - (5 - 1) = -3,
  commits it and raises IndexError when it reads the next value.
\<close>

theorem bounce_reflection_raises_IndexError:
  "range_iterator B init bounce_list_args =
     (Inl IndexError,
      \<lparr> current_index = Some (- 3), direction = - 1, cycle_completed = False,
        prev_custom_values = [], prev_start = Some 0, prev_end = Some 10,
        prev_step = Some 5, prev_mode = Some ''bounce'',
        prev_value_list_hash = Some (py_hash B [IntV 1, IntV 2]) \<rparr>)"
  by (simp add: bounce_list_args_def init_def phase_defs)

subsection \<open>Concrete runs\<close>

text \<open>
  Claim C5: with start 0, end 10, step 1, mode cycle, no custom values and no list, the
  first eleven calls of a fresh instance return the currents 0 to 10, only the eleventh
  (the wrapping one) reports a completed cycle, the stored index is then 0 again, and
  the twelfth call returns 0 as its current value.
\<close>

theorem cycle_wraps_after_eleven_calls:
  "fst (run_calls B init (replicate 11 cycle_args)) =
     [Inr (IntV 0, IntV 1, False), Inr (IntV 1, IntV 2, False),
      Inr (IntV 2, IntV 3, False), Inr (IntV 3, IntV 4, False),
      Inr (IntV 4, IntV 5, False), Inr (IntV 5, IntV 6, False),
      Inr (IntV 6, IntV 7, False), Inr (IntV 7, IntV 8, False),
      Inr (IntV 8, IntV 9, False), Inr (IntV 9, IntV 10, False),
      Inr (IntV 10, IntV 0, True)]
   \<and> current_index (snd (run_calls B init (replicate 11 cycle_args))) = Some 0
   \<and> fst (range_iterator B (snd (run_calls B init (replicate 11 cycle_args))) cycle_args)
       = Inr (IntV 0, IntV 1, False)"
  by (simp add: eval_nat_numeral cycle_args_def init_def phase_defs)

subsection \<open>Change detection and the snapshot\<close>

lemma detect_changes_flag:
  "fst (detect_changes B st a) =
     (reset_counter a \<or> custom_values a \<noteq> prev_custom_values st
      \<or> Some (start a) \<noteq> prev_start st \<or> Some (end_arg a) \<noteq> prev_end st
      \<or> Some (step a) \<noteq> prev_step st \<or> Some (mode a) \<noteq> prev_mode st
      \<or> (case value_list a of None \<Rightarrow> False
          | Some vl \<Rightarrow> Some (py_hash B vl) \<noteq> prev_value_list_hash st))"
  by (simp add: detect_changes_def Let_def split: option.split)

lemma detect_changes_state:
  "snd (detect_changes B st a) =
     st\<lparr>prev_custom_values := custom_values a, prev_start := Some (start a),
        prev_end := Some (end_arg a), prev_step := Some (step a),
        prev_mode := Some (mode a),
        prev_value_list_hash :=
          (case value_list a of None \<Rightarrow> prev_value_list_hash st
           | Some vl \<Rightarrow> Some (py_hash B vl))\<rparr>"
  by (simp add: detect_changes_def Let_def split: option.split)

lemma step_from_snapshot:
  "snapshot_matches st3 a \<Longrightarrow> snapshot_matches (snd (step_from a vl e ul i st3)) a"
  by (simp add: step_from_def snapshot_matches_def Let_def split: sum.split prod.split)

lemma init_or_reset_snapshot:
  "snapshot_matches st a \<Longrightarrow> snapshot_matches (snd (init_or_reset r s st)) a"
  by (simp add: init_or_reset_def snapshot_matches_def split: option.split)

lemma clamp_to_list_snapshot:
  "snapshot_matches (snd p) a \<Longrightarrow> snapshot_matches (snd (clamp_to_list ul vl p)) a"
  by (cases p) (simp add: clamp_to_list_def snapshot_matches_def Let_def)

lemma detect_changes_snapshot: "snapshot_matches (snd (detect_changes B st a)) a"
  by (simp add: detect_changes_state snapshot_matches_def)

text \<open>Whatever a call does, it leaves the snapshot of its own arguments behind.\<close>

lemma range_iterator_snapshot: "snapshot_matches (snd (range_iterator B st a)) a"
proof -
  obtain r st1 where d: "detect_changes B st a = (r, st1)"
    by (cases "detect_changes B st a")
  then have s1: "snapshot_matches st1 a"
    using detect_changes_snapshot [of B st a] by simp
  show ?thesis
  proof (cases "resolve_source B a")
    case (Inl e)
    then show ?thesis using d s1 by (simp add: range_iterator_def before_step_def)
  next
    case (Inr src)
    obtain vl e ul where src: "src = (vl, e, ul)" by (cases src)
    obtain i st3 where c: "clamp_to_list ul vl (init_or_reset r (start a) st1) = (i, st3)"
      by (cases "clamp_to_list ul vl (init_or_reset r (start a) st1)")
    have "snapshot_matches st3 a"
      using clamp_to_list_snapshot [OF init_or_reset_snapshot [OF s1], of ul vl r "start a"] c
      by simp
    then show ?thesis using d Inr src c step_from_snapshot [of st3 a vl e ul i]
      by (simp add: range_iterator_def before_step_def)
  qed
qed

subsection \<open>Once mode at the end of the range\<close>

lemma once_step_at_end:
  assumes "snapshot_matches st once_args" and "current_index st = Some 3"
  shows "range_iterator B st once_args =
           (Inr (IntV 3, IntV 3, True), st\<lparr>cycle_completed := True\<rparr>)"
  using assms
  by (simp add: snapshot_matches_def once_args_def phase_defs)

lemma once_run_at_end:
  "snapshot_matches st once_args \<Longrightarrow> current_index st = Some 3 \<Longrightarrow>
   fst (run_calls B st (replicate n once_args)) = replicate n (Inr (IntV 3, IntV 3, True))
   \<and> current_index (snd (run_calls B st (replicate n once_args))) = Some 3"
proof (induction n arbitrary: st)
  case 0
  then show ?case by simp
next
  case (Suc n)
  let ?st = "st\<lparr>cycle_completed := True\<rparr>"
  have "snapshot_matches ?st once_args" "current_index ?st = Some 3"
    using Suc.prems by (simp_all add: snapshot_matches_def)
  from Suc.IH [OF this] once_step_at_end [OF Suc.prems, of B]
  show ?case by (simp add: case_prod_beta)
qed

text \<open>
  Claim C7: with start 0, end 3, step 1, mode once, no custom values and no list, once a
  call has left the stored index at 3, each of the following calls (any number \<open>n\<close> of
  them) returns current 3, next 3 and a completed cycle, and the stored index stays 3.
\<close>

theorem once_mode_holds_at_end:
  assumes "current_index (snd (range_iterator B st0 once_args)) = Some 3"
  shows "fst (run_calls B (snd (range_iterator B st0 once_args)) (replicate n once_args))
           = replicate n (Inr (IntV 3, IntV 3, True))
         \<and> current_index (snd (run_calls B (snd (range_iterator B st0 once_args))
                                (replicate n once_args))) = Some 3"
  using once_run_at_end [OF range_iterator_snapshot assms] .

text \<open>
  The third call of a fresh instance leaves the index at 3; the five calls after it all
  return (3, 3, True).
\<close>

theorem once_mode_holds_at_end_witness:
  "current_index (snd (range_iterator ref_builtins
       (snd (run_calls ref_builtins init [once_args, once_args])) once_args)) = Some 3
   \<and> fst (run_calls ref_builtins
         (snd (range_iterator ref_builtins
                (snd (run_calls ref_builtins init [once_args, once_args])) once_args))
         (replicate 5 once_args)) = replicate 5 (Inr (IntV 3, IntV 3, True))"
proof -
  have h: "current_index (snd (range_iterator ref_builtins
       (snd (run_calls ref_builtins init [once_args, once_args])) once_args)) = Some 3"
    by (simp add: once_args_def init_def phase_defs)
  show ?thesis using h once_mode_holds_at_end [OF h, of 5] by simp
qed

subsection \<open>Reinitialisation\<close>

lemma detect_changes_cursor_indep:
  "fst (detect_changes B (st\<lparr>current_index := ci, direction := d, cycle_completed := c\<rparr>) a)
     = fst (detect_changes B st a)"
  by (simp add: detect_changes_flag split: option.split)

lemma detect_changes_cursor_state:
  "snd (detect_changes B (st\<lparr>current_index := ci, direction := d, cycle_completed := c\<rparr>) a)
     = (snd (detect_changes B st a))\<lparr>current_index := ci, direction := d, cycle_completed := c\<rparr>"
  by (simp add: detect_changes_state split: option.split)

lemma init_or_reset_True:
  "init_or_reset True s st =
     (s, st\<lparr>current_index := Some s, direction := 1, cycle_completed := False\<rparr>)"
  by (simp add: init_or_reset_def split: option.split)

lemma before_step_unfold:
  "before_step B st a =
     (case resolve_source B a of
        Inl e \<Rightarrow> Inl (e, snd (detect_changes B st a))
      | Inr (vl, end', using_list) \<Rightarrow>
          Inr (vl, end', using_list,
               clamp_to_list using_list vl
                 (init_or_reset (fst (detect_changes B st a)) (start a)
                    (snd (detect_changes B st a)))))"
  by (simp add: before_step_def case_prod_beta)

lemma reset_core:
  assumes "custom_values a \<noteq> prev_custom_values st \<or> Some (start a) \<noteq> prev_start st
           \<or> Some (end_arg a) \<noteq> prev_end st \<or> Some (step a) \<noteq> prev_step st
           \<or> Some (mode a) \<noteq> prev_mode st \<or> reset_counter a"
  shows "fst (detect_changes B st a)
         \<and> init_or_reset (fst (detect_changes B st a)) (start a) (snd (detect_changes B st a))
             = (start a, (snd (detect_changes B st a))
                           \<lparr>current_index := Some (start a), direction := 1,
                            cycle_completed := False\<rparr>)
         \<and> (resolve_source B a = Inr (vl, e, ul) \<longrightarrow>
            before_step B st a
              = Inr (vl, e, ul,
                     clamp_to_list ul vl
                       (start a, (snd (detect_changes B st a))
                                   \<lparr>current_index := Some (start a), direction := 1,
                                    cycle_completed := False\<rparr>)))
         \<and> fst (range_iterator B (st\<lparr>current_index := ci, direction := d, cycle_completed := c\<rparr>) a)
             = fst (range_iterator B st a)"
proof -
  have f: "fst (detect_changes B st a)"
    using assms by (auto simp add: detect_changes_flag)
  have i: "init_or_reset (fst (detect_changes B st a)) (start a) (snd (detect_changes B st a))
             = (start a, (snd (detect_changes B st a))
                           \<lparr>current_index := Some (start a), direction := 1,
                            cycle_completed := False\<rparr>)"
    using f by (simp add: init_or_reset_True)
  let ?st' = "st\<lparr>current_index := ci, direction := d, cycle_completed := c\<rparr>"
  have k: "init_or_reset (fst (detect_changes B ?st' a)) (start a) (snd (detect_changes B ?st' a))
             = init_or_reset (fst (detect_changes B st a)) (start a) (snd (detect_changes B st a))"
    using f
    by (simp add: detect_changes_cursor_indep detect_changes_cursor_state init_or_reset_True)
  have r: "fst (range_iterator B ?st' a) = fst (range_iterator B st a)"
  proof (cases "resolve_source B a")
    case (Inl e)
    then show ?thesis by (simp add: range_iterator_def before_step_unfold)
  next
    case (Inr src)
    then show ?thesis by (simp add: range_iterator_def before_step_unfold k)
  qed
  have w: "resolve_source B a = Inr (vl, e, ul) \<longrightarrow>
            before_step B st a
              = Inr (vl, e, ul,
                     clamp_to_list ul vl
                       (start a, (snd (detect_changes B st a))
                                   \<lparr>current_index := Some (start a), direction := 1,
                                    cycle_completed := False\<rparr>))"
    using i by (simp add: before_step_unfold)
  show ?thesis using f i w r by simp
qed


lemma step_change_sets_flag:
  assumes "s' \<noteq> step a"
  shows "fst (detect_changes B (snd (range_iterator B st a)) (a\<lparr>step := s'\<rparr>))"
proof -
  have "prev_step (snd (range_iterator B st a)) = Some (step a)"
    using range_iterator_snapshot [of B st a] by (simp add: snapshot_matches_def)
  then show ?thesis using assms by (auto simp add: detect_changes_flag)
qed

lemma cycle_st3_eq: "cycle_st3 = \<lparr> current_index = Some 3, direction = 1, cycle_completed = False,
            prev_custom_values = [], prev_start = Some 0, prev_end = Some 10,
            prev_step = Some 1, prev_mode = Some ''cycle'', prev_value_list_hash = None \<rparr>"
  by (simp add: cycle_st3_def cycle_args_def init_def phase_defs)

subsection \<open>Source resolution and the outcome of a call\<close>

lemma split_comma_nonempty: "split_comma s \<noteq> []"
  by (induction s) (auto split: list.split)

lemma map_raise_length: "map_raise f xs = Inr ys \<Longrightarrow> length ys = length xs"
  by (induction xs arbitrary: ys) (auto split: sum.splits)

lemma map_raise_only_error:
  assumes "\<And>y e. f y = Inl e \<Longrightarrow> e = err" and "x \<in> set xs" and "f x = Inl err"
  shows "map_raise f xs = Inl err"
  using assms(2,3)
proof (induction xs)
  case Nil
  then show ?case by simp
next
  case (Cons y ys)
  show ?case
  proof (cases "f y")
    case (Inl e)
    then show ?thesis using assms(1) [of y e] by simp
  next
    case (Inr v)
    then have "x \<in> set ys" using Cons.prems by auto
    then have "map_raise f ys = Inl err" using Cons.IH Cons.prems(2) by simp
    then show ?thesis using Inr by simp
  qed
qed

lemma parse_non_numeric:
  assumes "x \<in> set (split_comma cv)" and "py_float B (py_strip x) = None"
  shows "parse_custom_values B cv = Inr None"
proof -
  let ?f = "\<lambda>x. case py_float B (py_strip x) of None \<Rightarrow> Inl ValueError | Some f \<Rightarrow> Inr f"
  have "map_raise ?f (split_comma cv) = Inl ValueError"
  proof (rule map_raise_only_error [OF _ assms(1)])
    show "\<And>y e. ?f y = Inl e \<Longrightarrow> e = ValueError"
      by (auto split: option.splits)
    show "?f x = Inl ValueError" using assms(2) by simp
  qed
  then show ?thesis by (simp add: parse_custom_values_def)
qed

lemma parse_empty: "parse_custom_values B [] = Inr None"
  by (simp add: parse_custom_values_def)

lemma parse_Some_nonempty:
  assumes "parse_custom_values B cv = Inr (Some l)"
  shows "l \<noteq> []"
proof -
  let ?f = "\<lambda>x. case py_float B (py_strip x) of None \<Rightarrow> Inl ValueError | Some f \<Rightarrow> Inr f"
  from assms obtain fs where 1: "map_raise ?f (split_comma cv) = Inr fs"
    and 2: "map_raise normalize_number fs = Inr l"
    by (auto simp add: parse_custom_values_def split: if_splits sum.splits)
  have "length l = length (split_comma cv)"
    using map_raise_length [OF 1] map_raise_length [OF 2] by simp
  then show ?thesis using split_comma_nonempty [of cv] by auto
qed

lemma init_or_reset_fst:
  "fst (init_or_reset r s st) = (if r \<or> current_index st = None then s else the (current_index st))"
  by (simp add: init_or_reset_def split: option.split)

lemma init_or_reset_direction:
  "direction (snd (init_or_reset r s st)) = (if r \<or> current_index st = None then 1 else direction st)"
  by (simp add: init_or_reset_def split: option.split)

lemma clamp_to_list_fst:
  "fst (clamp_to_list ul vl p) =
     (if ul \<and> fst p > int (length (list_of vl)) - 1 then int (length (list_of vl)) - 1 else fst p)"
  by (cases p) (simp add: clamp_to_list_def Let_def)

lemma clamp_to_list_direction:
  "direction (snd (clamp_to_list ul vl p)) = direction (snd p)"
  by (cases p) (simp add: clamp_to_list_def Let_def)

lemma step_from_fst_cong:
  assumes "mode a = mode a'" "start a = start a'" "step a = step a'" "direction st = direction st'"
  shows "fst (step_from a vl e ul i st) = fst (step_from a' vl e ul i st')"
  using assms by (simp add: step_from_def Let_def split: sum.split prod.split)

lemma range_iterator_fst_cong:
  assumes src: "resolve_source B a = resolve_source B a'"
    and args: "mode a = mode a'" "start a = start a'" "step a = step a'"
    and flag: "(fst (detect_changes B st a) \<or> current_index st = None)
                = (fst (detect_changes B st a') \<or> current_index st = None)"
  shows "fst (range_iterator B st a) = fst (range_iterator B st a')"
proof (cases "resolve_source B a")
  case (Inl e)
  then show ?thesis using src by (simp add: range_iterator_def before_step_unfold)
next
  case (Inr s)
  obtain vl e ul where s: "s = (vl, e, ul)" by (cases s)
  let ?p = "init_or_reset (fst (detect_changes B st a)) (start a) (snd (detect_changes B st a))"
  let ?p' = "init_or_reset (fst (detect_changes B st a')) (start a') (snd (detect_changes B st a'))"
  have ci: "current_index (snd (detect_changes B st a)) = current_index st"
           "current_index (snd (detect_changes B st a')) = current_index st"
           "direction (snd (detect_changes B st a)) = direction st"
           "direction (snd (detect_changes B st a')) = direction st"
    by (simp_all add: detect_changes_state)
  have i: "fst ?p = fst ?p'"
    using flag args ci by (simp add: init_or_reset_fst)
  have d: "direction (snd ?p) = direction (snd ?p')"
    using flag ci by (simp add: init_or_reset_direction)
  have i2: "fst (clamp_to_list ul vl ?p) = fst (clamp_to_list ul vl ?p')"
    using i by (simp add: clamp_to_list_fst)
  have d2: "direction (snd (clamp_to_list ul vl ?p)) = direction (snd (clamp_to_list ul vl ?p'))"
    using d by (simp add: clamp_to_list_direction)
  have "fst (step_from a vl e ul (fst (clamp_to_list ul vl ?p)) (snd (clamp_to_list ul vl ?p)))
      = fst (step_from a' vl e ul (fst (clamp_to_list ul vl ?p')) (snd (clamp_to_list ul vl ?p')))"
    using step_from_fst_cong [OF args d2] i2 by simp
  then show ?thesis using Inr s src
    by (simp add: range_iterator_def before_step_unfold case_prod_beta)
qed

lemma py_getitem_in_set: "py_getitem xs i = Inr v \<Longrightarrow> v \<in> set xs"
  by (auto simp add: py_getitem_def Let_def split: if_splits)

lemma before_step_source:
  "before_step B st a = Inr (vl, e, ul, i, st3) \<Longrightarrow> resolve_source B a = Inr (vl, e, ul)"
  by (auto simp add: before_step_unfold split: sum.splits)

lemma range_iterator_returns:
  assumes "range_iterator B st a = (Inr (cur, nxt, cc), st')"
  shows "\<exists>vl e ul i st3 j d.
           before_step B st a = Inr (vl, e, ul, i, st3)
           \<and> value_at ul vl i = Inr cur
           \<and> next_step (mode a) ul (int (length (list_of vl))) (start a) e (step a) i
                (direction st3) = Inr (j, d, cc)
           \<and> value_at ul vl j = Inr nxt
           \<and> st' = st3\<lparr>direction := d, cycle_completed := cc, current_index := Some j\<rparr>"
  using assms
  by (auto simp add: range_iterator_def step_from_def Let_def split: sum.splits prod.splits)

text \<open>
  What holds for every call that gets past the parse: it has exactly one source. A
  parsed custom\_values list \<open>l\<close> (never empty) is the active list with the effective
  end \<open>length l - 1\<close>, whatever end and value\_list were supplied, and the values the
  call returns are elements of \<open>l\<close>; without a parsed list a non-empty value\_list is
  the active list; otherwise no list is active and the call works on the numeric range.
\<close>

lemma source_precedence:
  "(parse_custom_values B (custom_values a) = Inr (Some l) \<longrightarrow>
      l \<noteq> []
      \<and> resolve_source B a = Inr (Some l, int (length l) - 1, True)
      \<and> resolve_source B (a\<lparr>end_arg := e, value_list := v\<rparr>) = resolve_source B a
      \<and> (fst (range_iterator B st a) = Inr (cur, nxt, cc) \<longrightarrow> cur \<in> set l \<and> nxt \<in> set l))
   \<and> (parse_custom_values B (custom_values a) = Inr None \<longrightarrow>
        value_list a = Some vl \<longrightarrow> vl \<noteq> [] \<longrightarrow>
        resolve_source B a = Inr (Some vl, end_arg a, True))
   \<and> (parse_custom_values B (custom_values a) = Inr None \<longrightarrow>
        value_list a = None \<or> value_list a = Some [] \<longrightarrow>
        resolve_source B a = Inr (value_list a, end_arg a, False))"
proof (intro conjI impI)
  assume p: "parse_custom_values B (custom_values a) = Inr (Some l)"
  show ne: "l \<noteq> []" using parse_Some_nonempty [OF p] .
  show r: "resolve_source B a = Inr (Some l, int (length l) - 1, True)"
    using p ne by (simp add: resolve_source_def)
  show "resolve_source B (a\<lparr>end_arg := e, value_list := v\<rparr>) = resolve_source B a"
    using p by (simp add: resolve_source_def)
  assume o: "fst (range_iterator B st a) = Inr (cur, nxt, cc)"
  then have "range_iterator B st a = (Inr (cur, nxt, cc), snd (range_iterator B st a))"
    by (metis prod.collapse)
  from range_iterator_returns [OF this] obtain vl' e' ul i st3 j
    where b: "before_step B st a = Inr (vl', e', ul, i, st3)"
      and c: "value_at ul vl' i = Inr cur" and n: "value_at ul vl' j = Inr nxt"
    by blast
  have "vl' = Some l" "ul" using before_step_source [OF b] r by simp_all
  then show "cur \<in> set l" "nxt \<in> set l"
    using c n by (auto simp add: value_at_def list_of_def dest: py_getitem_in_set)
next
  assume "parse_custom_values B (custom_values a) = Inr None" "value_list a = Some vl" "vl \<noteq> []"
  then show "resolve_source B a = Inr (Some vl, end_arg a, True)"
    by (simp add: resolve_source_def)
next
  assume "parse_custom_values B (custom_values a) = Inr None"
    "value_list a = None \<or> value_list a = Some []"
  then show "resolve_source B a = Inr (value_list a, end_arg a, False)"
    by (auto simp add: resolve_source_def)
qed

lemma parse_123: "parse_custom_values ref_builtins ''1,2,3'' = Inr (Some [IntV 1, IntV 2, IntV 3])"
  by code_simp

lemma parse_1x3_elem: "''x'' \<in> set (split_comma ''1,x,3'') \<and> py_float ref_builtins (py_strip ''x'') = None"
  by code_simp


text \<open>
  The three sources at concrete calls: custom\_values "1,2,3" wins over end 99 and the
  list [7]; without custom values the list [7, 8] is active; without either, the range.
\<close>

lemma source_precedence_examples:
  "parse_custom_values ref_builtins (custom_values custom_args)
     = Inr (Some [IntV 1, IntV 2, IntV 3])
   \<and> resolve_source ref_builtins (custom_args\<lparr>end_arg := 99, value_list := Some [IntV 7]\<rparr>)
       = Inr (Some [IntV 1, IntV 2, IntV 3], 2, True)
   \<and> parse_custom_values ref_builtins (custom_values cycle_args) = Inr None
   \<and> resolve_source ref_builtins (cycle_args\<lparr>value_list := Some [IntV 7, IntV 8]\<rparr>)
       = Inr (Some [IntV 7, IntV 8], 10, True)
   \<and> resolve_source ref_builtins cycle_args = Inr (None, 10, False)"
proof -
  have p1: "parse_custom_values ref_builtins (custom_values custom_args)
              = Inr (Some [IntV 1, IntV 2, IntV 3])"
    by (simp add: custom_args_def parse_123)
  have p2: "parse_custom_values ref_builtins
              (custom_values (cycle_args\<lparr>value_list := Some [IntV 7, IntV 8]\<rparr>)) = Inr None"
    by (simp add: cycle_args_def parse_empty)
  have p3: "parse_custom_values ref_builtins (custom_values cycle_args) = Inr None"
    by (simp add: cycle_args_def parse_empty)
  show ?thesis
    using p1 p2 p3
      source_precedence [where B = ref_builtins and a = custom_args
        and l = "[IntV 1, IntV 2, IntV 3]" and e = 99 and v = "Some [IntV 7]"]
      source_precedence [where B = ref_builtins
        and a = "cycle_args\<lparr>value_list := Some [IntV 7, IntV 8]\<rparr>"
        and vl = "[IntV 7, IntV 8]"]
      source_precedence [where B = ref_builtins and a = cycle_args]
    by (simp add: cycle_args_def)
qed

lemma same_reset_same_outcome:
  assumes "parse_custom_values B cv = Inr None"
    and "(fst (detect_changes B st (a\<lparr>custom_values := cv\<rparr>)) \<or> current_index st = None)
          = (fst (detect_changes B st (a\<lparr>custom_values := []\<rparr>)) \<or> current_index st = None)"
  shows "fst (range_iterator B st (a\<lparr>custom_values := cv\<rparr>))
          = fst (range_iterator B st (a\<lparr>custom_values := []\<rparr>))"
proof (rule range_iterator_fst_cong)
  show "resolve_source B (a\<lparr>custom_values := cv\<rparr>) = resolve_source B (a\<lparr>custom_values := []\<rparr>)"
    using assms(1) by (simp add: resolve_source_def parse_empty)
qed (use assms(2) in simp_all)

text \<open>
  Claim C4, as the code has it: when an element of custom\_values is not numeric, the
  parse raises nothing and yields no list, the source is resolved as for the empty
  string, and the call returns what the call with the empty string returns whenever the
  two calls agree on reinitialising the cursor: for an uninitialised cursor, with
  reset\_counter set, or when the stored custom\_values snapshot is neither of the two
  strings.
\<close>

theorem malformed_custom_values_fall_back:
  assumes "x \<in> set (split_comma cv)" and "py_float B (py_strip x) = None"
  shows "parse_custom_values B cv = Inr None
         \<and> resolve_source B (a\<lparr>custom_values := cv\<rparr>)
             = resolve_source B (a\<lparr>custom_values := []\<rparr>)
         \<and> ((fst (detect_changes B st (a\<lparr>custom_values := cv\<rparr>)) \<or> current_index st = None)
              = (fst (detect_changes B st (a\<lparr>custom_values := []\<rparr>)) \<or> current_index st = None)
            \<longrightarrow> fst (range_iterator B st (a\<lparr>custom_values := cv\<rparr>))
                  = fst (range_iterator B st (a\<lparr>custom_values := []\<rparr>)))
         \<and> (current_index st = None \<or> reset_counter a
              \<or> (prev_custom_values st \<noteq> cv \<and> prev_custom_values st \<noteq> [])
            \<longrightarrow> fst (range_iterator B st (a\<lparr>custom_values := cv\<rparr>))
                  = fst (range_iterator B st (a\<lparr>custom_values := []\<rparr>)))"
proof -
  have p: "parse_custom_values B cv = Inr None"
    using parse_non_numeric [OF assms] .
  have r: "resolve_source B (a\<lparr>custom_values := cv\<rparr>)
             = resolve_source B (a\<lparr>custom_values := []\<rparr>)"
    using p by (simp add: resolve_source_def parse_empty)
  have g: "(fst (detect_changes B st (a\<lparr>custom_values := cv\<rparr>)) \<or> current_index st = None)
              = (fst (detect_changes B st (a\<lparr>custom_values := []\<rparr>)) \<or> current_index st = None)
            \<longrightarrow> fst (range_iterator B st (a\<lparr>custom_values := cv\<rparr>))
                  = fst (range_iterator B st (a\<lparr>custom_values := []\<rparr>))"
    using same_reset_same_outcome [OF p] by blast
  have h: "current_index st = None \<or> reset_counter a
              \<or> (prev_custom_values st \<noteq> cv \<and> prev_custom_values st \<noteq> [])
            \<longrightarrow> fst (range_iterator B st (a\<lparr>custom_values := cv\<rparr>))
                  = fst (range_iterator B st (a\<lparr>custom_values := []\<rparr>))"
  proof
    assume "current_index st = None \<or> reset_counter a
              \<or> (prev_custom_values st \<noteq> cv \<and> prev_custom_values st \<noteq> [])"
    then have "(fst (detect_changes B st (a\<lparr>custom_values := cv\<rparr>)) \<or> current_index st = None)
              = (fst (detect_changes B st (a\<lparr>custom_values := []\<rparr>)) \<or> current_index st = None)"
      by (auto simp add: detect_changes_flag)
    then show "fst (range_iterator B st (a\<lparr>custom_values := cv\<rparr>))
                  = fst (range_iterator B st (a\<lparr>custom_values := []\<rparr>))"
      using same_reset_same_outcome [OF p] by blast
  qed
  show ?thesis using p r g h by blast
qed

text \<open>
  On a fresh instance "1,x,3" and the empty string return the same triple.
\<close>

theorem malformed_custom_values_fall_back_witness:
  "''x'' \<in> set (split_comma ''1,x,3'')
   \<and> py_float ref_builtins (py_strip ''x'') = None
   \<and> current_index init = None
   \<and> parse_custom_values ref_builtins ''1,x,3'' = Inr None
   \<and> fst (range_iterator ref_builtins init (cycle_args\<lparr>custom_values := ''1,x,3''\<rparr>))
       = fst (range_iterator ref_builtins init (cycle_args\<lparr>custom_values := []\<rparr>))
   \<and> fst (range_iterator ref_builtins init (cycle_args\<lparr>custom_values := []\<rparr>))
       = Inr (IntV 0, IntV 1, False)"
proof -
  have h: "''x'' \<in> set (split_comma ''1,x,3'')" "py_float ref_builtins (py_strip ''x'') = None"
    using parse_1x3_elem by simp_all
  have i: "current_index init = None" by (simp add: init_def)
  have e: "fst (range_iterator ref_builtins init (cycle_args\<lparr>custom_values := []\<rparr>))
             = Inr (IntV 0, IntV 1, False)"
    by (simp add: cycle_args_def init_def phase_defs)
  show ?thesis
    using h i e
      malformed_custom_values_fall_back [OF h, where a = cycle_args and st = init]
    by simp
qed

text \<open>
  Claim C4 as stated fails: the raw string takes part in change detection. After three
  calls with the empty string (stored index 3), the call with "1,x,3" is reinitialised
  and returns (0, 1, False), the call with the empty string returns (3, 4, False).
\<close>

theorem malformed_custom_values_differ_from_empty:
  "''x'' \<in> set (split_comma ''1,x,3'')
   \<and> py_float ref_builtins (py_strip ''x'') = None
   \<and> fst (range_iterator ref_builtins cycle_st3 (cycle_args\<lparr>custom_values := ''1,x,3''\<rparr>))
       = Inr (IntV 0, IntV 1, False)
   \<and> fst (range_iterator ref_builtins cycle_st3 (cycle_args\<lparr>custom_values := []\<rparr>))
       = Inr (IntV 3, IntV 4, False)"
proof -
  have p: "parse_custom_values ref_builtins ''1,x,3'' = Inr None"
    using parse_non_numeric parse_1x3_elem by blast
  have a: "fst (range_iterator ref_builtins cycle_st3 (cycle_args\<lparr>custom_values := ''1,x,3''\<rparr>))
       = Inr (IntV 0, IntV 1, False)"
    using p by (simp add: cycle_st3_eq cycle_args_def range_iterator_def before_step_def
        step_from_def detect_changes_def resolve_source_def init_or_reset_def clamp_to_list_def
        value_at_def next_step_def)
  have b: "fst (range_iterator ref_builtins cycle_st3 (cycle_args\<lparr>custom_values := []\<rparr>))
       = Inr (IntV 3, IntV 4, False)"
    by (simp add: cycle_st3_eq cycle_args_def phase_defs)
  show ?thesis using parse_1x3_elem a b by simp
qed

subsection \<open>The empty value list\<close>

lemma step_from_no_list_fst:
  "fst (step_from a vl e False i st) = fst (step_from a vl' e False i st)"
  by (simp add: step_from_def value_at_def next_step_def Let_def split: sum.split prod.split)

lemma clamp_to_list_no_list: "clamp_to_list False vl p = p"
  by (cases p) (simp add: clamp_to_list_def)

lemma range_iterator_fst_no_list:
  assumes src: "resolve_source B a = Inr (vl, e, False)"
  shows "fst (range_iterator B st a)
           = fst (step_from a None e False
                    (fst (init_or_reset (fst (detect_changes B st a)) (start a)
                            (snd (detect_changes B st a))))
                    (snd (init_or_reset (fst (detect_changes B st a)) (start a)
                            (snd (detect_changes B st a)))))"
  using src step_from_no_list_fst [of a vl e _ _ None]
  by (simp add: range_iterator_def before_step_unfold clamp_to_list_no_list case_prod_beta)

lemma step_from_no_list_outcome:
  "fst (step_from a vl e False i st) \<noteq> Inl IndexError
   \<and> (step_from a vl e False i st = (Inr (cur, nxt, cc), st') \<longrightarrow>
        cur = IntV i \<and> (\<exists>j. nxt = IntV j \<and> current_index st' = Some j))"
  by (auto simp add: step_from_def value_at_def next_step_def Let_def split: sum.splits prod.splits if_splits)

text \<open>
  Claim C10, as the code has it: when custom\_values yields no parsed list and the
  supplied value\_list is empty, \<open>using_list\<close> is False and the source is resolved as
  without a list; no list element is read (the call never raises IndexError, and the
  values it returns are the indices themselves, the next one being the stored index).
  The call returns what the call without a list returns when that one is given the
  reset flag of the fingerprint comparison: the empty list still takes part in change
  detection.
\<close>

theorem empty_list_is_no_list:
  assumes "parse_custom_values B (custom_values a) = Inr None" and "value_list a = Some []"
  shows "resolve_source B a = Inr (Some [], end_arg a, False)
         \<and> resolve_source B (a\<lparr>value_list := None\<rparr>) = Inr (None, end_arg a, False)
         \<and> fst (range_iterator B st a) \<noteq> Inl IndexError
         \<and> (fst (range_iterator B st a) = Inr (cur, nxt, cc) \<longrightarrow>
              (\<exists>i j. cur = IntV i \<and> nxt = IntV j
                     \<and> current_index (snd (range_iterator B st a)) = Some j))
         \<and> fst (range_iterator B st a)
             = fst (range_iterator B st
                      (a\<lparr>value_list := None,
                         reset_counter := reset_counter a
                           \<or> Some (py_hash B []) \<noteq> prev_value_list_hash st\<rparr>))"
proof -
  let ?a' = "a\<lparr>value_list := None,
                 reset_counter := reset_counter a
                   \<or> Some (py_hash B []) \<noteq> prev_value_list_hash st\<rparr>"
  have r1: "resolve_source B a = Inr (Some [], end_arg a, False)"
    using assms by (simp add: resolve_source_def)
  have r2: "resolve_source B (a\<lparr>value_list := None\<rparr>) = Inr (None, end_arg a, False)"
    using assms by (simp add: resolve_source_def)
  have r3: "resolve_source B ?a' = Inr (None, end_arg a, False)"
    using assms by (simp add: resolve_source_def)
  obtain i st3 where b: "before_step B st a = Inr (Some [], end_arg a, False, i, st3)"
    using r1 by (cases "init_or_reset (fst (detect_changes B st a)) (start a)
                          (snd (detect_changes B st a))")
      (simp add: before_step_unfold clamp_to_list_no_list)
  then have ri: "range_iterator B st a = step_from a (Some []) (end_arg a) False i st3"
    by (simp add: range_iterator_def)
  have n: "fst (range_iterator B st a) \<noteq> Inl IndexError"
    using step_from_no_list_outcome [of a "Some []" "end_arg a" i st3] ri by simp
  have v: "fst (range_iterator B st a) = Inr (cur, nxt, cc) \<longrightarrow>
              (\<exists>i j. cur = IntV i \<and> nxt = IntV j
                     \<and> current_index (snd (range_iterator B st a)) = Some j)"
  proof
    assume "fst (range_iterator B st a) = Inr (cur, nxt, cc)"
    then have "step_from a (Some []) (end_arg a) False i st3
                 = (Inr (cur, nxt, cc), snd (range_iterator B st a))"
      using ri by (metis prod.collapse)
    then show "\<exists>i j. cur = IntV i \<and> nxt = IntV j
                     \<and> current_index (snd (range_iterator B st a)) = Some j"
      using step_from_no_list_outcome [of a "Some []" "end_arg a" i st3 cur nxt cc
          "snd (range_iterator B st a)"]
      by blast
  qed
  have f: "fst (detect_changes B st a) = fst (detect_changes B st ?a')"
    using assms(2) by (auto simp add: detect_changes_flag)
  have c: "current_index (snd (detect_changes B st a)) = current_index (snd (detect_changes B st ?a'))"
          "direction (snd (detect_changes B st a)) = direction (snd (detect_changes B st ?a'))"
    by (simp_all add: detect_changes_state)
  let ?p = "init_or_reset (fst (detect_changes B st a)) (start a) (snd (detect_changes B st a))"
  let ?p' = "init_or_reset (fst (detect_changes B st ?a')) (start ?a') (snd (detect_changes B st ?a'))"
  have i: "fst ?p = fst ?p'" using f c by (simp add: init_or_reset_fst)
  have d: "direction (snd ?p) = direction (snd ?p')" using f c by (simp add: init_or_reset_direction)
  have "fst (step_from a None (end_arg a) False (fst ?p) (snd ?p))
          = fst (step_from ?a' None (end_arg a) False (fst ?p') (snd ?p'))"
    using step_from_fst_cong [of a ?a' "snd ?p" "snd ?p'" None "end_arg a" False "fst ?p"] d i
    by simp
  then have q: "fst (range_iterator B st a) = fst (range_iterator B st ?a')"
    using range_iterator_fst_no_list [OF r1, of st] range_iterator_fst_no_list [OF r3, of st]
    by simp
  show ?thesis using r1 r2 n v q by blast
qed

text \<open>
  A fresh instance called with the empty list returns (0, 1, False).
\<close>

theorem empty_list_is_no_list_witness:
  "parse_custom_values ref_builtins (custom_values empty_list_args) = Inr None
   \<and> value_list empty_list_args = Some []
   \<and> resolve_source ref_builtins empty_list_args = Inr (Some [], 10, False)
   \<and> fst (range_iterator ref_builtins init empty_list_args) \<noteq> Inl IndexError
   \<and> fst (range_iterator ref_builtins init empty_list_args) = Inr (IntV 0, IntV 1, False)"
proof -
  have p: "parse_custom_values ref_builtins (custom_values empty_list_args) = Inr None"
    by (simp add: empty_list_args_def parse_empty)
  have v: "value_list empty_list_args = Some []"
    by (simp add: empty_list_args_def)
  have e: "fst (range_iterator ref_builtins init empty_list_args) = Inr (IntV 0, IntV 1, False)"
    by (simp add: empty_list_args_def init_def phase_defs)
  have t: "resolve_source ref_builtins empty_list_args
             = Inr (Some [], end_arg empty_list_args, False)
           \<and> fst (range_iterator ref_builtins init empty_list_args) \<noteq> Inl IndexError"
    using empty_list_is_no_list [OF p v, where st = init] by blast
  have "end_arg empty_list_args = 10" by (simp add: empty_list_args_def)
  then show ?thesis using p v e t by simp
qed

text \<open>
  Claim C10 as stated fails: the empty list is not treated exactly like no list. After
  three calls without a list (stored index 3, no fingerprint stored) the call with the
  empty list is reinitialised and returns (0, 1, False); the call without a list returns
  (3, 4, False).
\<close>

theorem empty_list_resets_where_no_list_does_not:
  "parse_custom_values ref_builtins (custom_values empty_list_args) = Inr None
   \<and> fst (range_iterator ref_builtins cycle_st3 empty_list_args) = Inr (IntV 0, IntV 1, False)
   \<and> fst (range_iterator ref_builtins cycle_st3 (empty_list_args\<lparr>value_list := None\<rparr>))
       = Inr (IntV 3, IntV 4, False)"
  by (simp add: empty_list_args_def cycle_st3_eq phase_defs)

subsection \<open>Current, next and the stored index\<close>

lemma before_step_index:
  assumes "before_step B st a = Inr (vl, e, ul, i, st3)"
  shows "current_index st3 = Some i"
    and "i = (let i0 = (if fst (detect_changes B st a) \<or> current_index st = None
                        then start a else the (current_index st))
              in if ul \<and> i0 > int (length (list_of vl)) - 1
                 then int (length (list_of vl)) - 1 else i0)"
    and "direction st3 = (if fst (detect_changes B st a) \<or> current_index st = None
                          then 1 else direction st)"
  using assms
  by (auto simp add: before_step_unfold init_or_reset_def clamp_to_list_def Let_def
        detect_changes_state split: sum.splits option.splits if_splits)


lemma before_step_state:
  assumes "before_step B st a = Inr (vl, e, ul, i, st3)"
  shows "snapshot_matches st3 a"
    and "prev_value_list_hash st3 = prev_value_list_hash (snd (detect_changes B st a))"
  using assms
  by (auto simp add: before_step_unfold init_or_reset_def clamp_to_list_def Let_def
        detect_changes_state snapshot_matches_def split: sum.splits option.splits if_splits)

lemma value_at_upper:
  "value_at True vl j = Inr v \<Longrightarrow> j \<le> int (length (list_of vl)) - 1"
  by (auto simp add: value_at_def py_getitem_def Let_def split: if_splits)

lemma detect_changes_settled:
  assumes "snapshot_matches st a" and "\<not> reset_counter a"
    and "case value_list a of None \<Rightarrow> True
         | Some vl \<Rightarrow> prev_value_list_hash st = Some (py_hash B vl)"
  shows "detect_changes B st a = (False, st)"
proof -
  have "fst (detect_changes B st a) = False"
    using assms by (auto simp add: detect_changes_flag snapshot_matches_def split: option.splits)
  moreover have "snd (detect_changes B st a) = st"
    using assms by (auto simp add: detect_changes_state snapshot_matches_def split: option.splits)
  ultimately show ?thesis by (metis prod.collapse)
qed

lemma resolve_source_reset_counter:
  "resolve_source B (a\<lparr>reset_counter := r\<rparr>) = resolve_source B a"
  by (simp add: resolve_source_def split: sum.split option.split)

text \<open>
  Claim C9, as the code has it: for every call that returns, current\_value is the value
  at the index \<open>i\<close> held before the step (the list element with a list, the index itself
  without), next\_value is the value at the index \<open>j\<close> after the step, and \<open>j\<close> is the
  stored index; the following call with the same arguments starts from \<open>j\<close>. On the
  first call or after a reset \<open>i\<close> is start, or the last list position when a list is
  active and start lies beyond it.
\<close>

theorem current_next_and_stored_index:
  assumes "range_iterator B st a = (Inr (cur, nxt, cc), st')"
  shows "\<exists>vl e ul i st3 j.
           before_step B st a = Inr (vl, e, ul, i, st3)
           \<and> current_index st3 = Some i
           \<and> value_at ul vl i = Inr cur
           \<and> value_at ul vl j = Inr nxt
           \<and> current_index st' = Some j
           \<and> (fst (detect_changes B st a) \<or> current_index st = None \<longrightarrow>
                i = (if ul then min (start a) (int (length (list_of vl)) - 1) else start a))
           \<and> before_step B st' (a\<lparr>reset_counter := False\<rparr>) = Inr (vl, e, ul, j, st')"
proof -
  from range_iterator_returns [OF assms] obtain vl e ul i st3 j d
    where b: "before_step B st a = Inr (vl, e, ul, i, st3)"
      and c: "value_at ul vl i = Inr cur"
      and n: "value_at ul vl j = Inr nxt"
      and s: "st' = st3\<lparr>direction := d, cycle_completed := cc, current_index := Some j\<rparr>"
    by blast
  let ?a = "a\<lparr>reset_counter := False\<rparr>"
  have ci: "current_index st3 = Some i" using before_step_index(1) [OF b] .
  have cj: "current_index st' = Some j" using s by simp
  have r: "fst (detect_changes B st a) \<or> current_index st = None \<longrightarrow>
             i = (if ul then min (start a) (int (length (list_of vl)) - 1) else start a)"
    using before_step_index(2) [OF b] by (auto simp add: Let_def min_def)
  have src: "resolve_source B ?a = Inr (vl, e, ul)"
    using before_step_source [OF b] by (simp add: resolve_source_reset_counter)
  have m: "snapshot_matches st' ?a"
    using before_step_state(1) [OF b] s by (simp add: snapshot_matches_def)
  have h: "case value_list ?a of None \<Rightarrow> True
           | Some vl \<Rightarrow> prev_value_list_hash st' = Some (py_hash B vl)"
    using before_step_state(2) [OF b] s
    by (simp add: detect_changes_state split: option.split)
  have dc: "detect_changes B st' ?a = (False, st')"
    using detect_changes_settled [OF m _ h] by simp
  have cl: "clamp_to_list ul vl (j, st') = (j, st')"
  proof (cases ul)
    case True
    then have "j \<le> int (length (list_of vl)) - 1" using value_at_upper [of vl j nxt] n by simp
    then show ?thesis using True by (simp add: clamp_to_list_def Let_def)
  next
    case False
    then show ?thesis by (simp add: clamp_to_list_def)
  qed
  have nb: "before_step B st' ?a = Inr (vl, e, ul, j, st')"
    using src dc cj cl by (simp add: before_step_def init_or_reset_def)
  from b ci c n cj r nb show ?thesis
    by - (intro exI conjI, assumption+)
qed

text \<open>
  The fourth call of \<open>cycle_args\<close> returns current 3 and next 4 and stores 4.
\<close>

theorem current_next_and_stored_index_witness:
  "range_iterator ref_builtins cycle_st3 cycle_args
     = (Inr (IntV 3, IntV 4, False), cycle_st3\<lparr>current_index := Some 4\<rparr>)
   \<and> (\<exists>vl e ul i st3 j.
         before_step ref_builtins cycle_st3 cycle_args = Inr (vl, e, ul, i, st3)
         \<and> value_at ul vl i = Inr (IntV 3) \<and> value_at ul vl j = Inr (IntV 4)
         \<and> current_index (cycle_st3\<lparr>current_index := Some 4\<rparr>) = Some j)"
proof -
  have h: "range_iterator ref_builtins cycle_st3 cycle_args
     = (Inr (IntV 3, IntV 4, False), cycle_st3\<lparr>current_index := Some 4\<rparr>)"
    by (simp add: cycle_st3_eq cycle_args_def phase_defs)
  from current_next_and_stored_index [OF h] obtain vl e ul i st3 j
    where "before_step ref_builtins cycle_st3 cycle_args = Inr (vl, e, ul, i, st3)"
      and "value_at ul vl i = Inr (IntV 3)" and "value_at ul vl j = Inr (IntV 4)"
      and "current_index (cycle_st3\<lparr>current_index := Some 4\<rparr>) = Some j"
    by fast
  then have ex: "\<exists>vl e ul i st3 j.
         before_step ref_builtins cycle_st3 cycle_args = Inr (vl, e, ul, i, st3)
         \<and> value_at ul vl i = Inr (IntV 3) \<and> value_at ul vl j = Inr (IntV 4)
         \<and> current_index (cycle_st3\<lparr>current_index := Some 4\<rparr>) = Some j"
    by - (intro exI conjI, assumption+)
  from h ex show ?thesis by (rule conjI)
qed

text \<open>
  Claim C9 as stated fails in its parenthesis: with the list [1, 2, 3] and start 5 the
  first call returns the element at position 2 (the index is clamped to the end of the
  list); the list has no value at position 5.
\<close>

theorem first_current_is_not_value_at_start:
  "fst (range_iterator ref_builtins init clamp_args) = Inr (IntV 3, IntV 1, True)
   \<and> start clamp_args = 5
   \<and> value_at True (value_list clamp_args) (start clamp_args) = Inl IndexError
   \<and> value_at True (value_list clamp_args) 2 = Inr (IntV 3)"
  by (simp add: clamp_args_def init_def phase_defs)

subsection \<open>Bounce mode\<close>

lemma step_from_state:
  assumes "value_at ul vl i = Inr cur"
    and "next_step (mode a) ul (int (length (list_of vl))) (start a) e (step a) i (direction st3)
           = Inr (j, d, cc)"
  shows "snd (step_from a vl e ul i st3)
           = st3\<lparr>direction := d, cycle_completed := cc, current_index := Some j\<rparr>"
  using assms by (simp add: step_from_def Let_def split: sum.split)

lemma next_step_bounce:
  "next_step ''bounce'' ul len s e stp i d =
     (let c = i + stp * d;
          U = (if ul then len - 1 else e);
          L = (if ul then 0 else s)
      in if c > U then Inr (U - (c - U), - 1, False)
         else if c < L then Inr (L + (L - c), 1, True)
         else Inr (c, d, False))"
  by (simp add: next_step_def Let_def)

text \<open>
  Claim C3, as the code has it: in bounce mode, for a call that reaches its step with
  the index \<open>i\<close> and the candidate \<open>c = i + step * direction\<close>, bounds \<open>L\<close> and \<open>U\<close>:
  when \<open>c > U\<close> the direction becomes -1, the index \<open>U - (c - U)\<close> and the flag False;
  when \<open>c < L\<close> and not \<open>c > U\<close> the direction becomes +1, the index \<open>L + (L - c)\<close> and
  the flag True; otherwise the index is \<open>c\<close> and the flag False. The flag is never True
  on a rebound at the upper bound. The test against \<open>U\<close> comes first.
\<close>

theorem bounce_reflects_at_the_bounds:
  assumes "mode a = ''bounce''"
    and "before_step B st a = Inr (vl, e, ul, i, st3)"
    and "value_at ul vl i = Inr cur"
  shows "(let c = i + step a * direction st3;
              U = upper_bound ul vl e;
              L = lower_bound ul (start a);
              st' = snd (range_iterator B st a)
          in (c > U \<longrightarrow>
                direction st' = - 1 \<and> current_index st' = Some (U - (c - U))
                \<and> \<not> cycle_completed st')
           \<and> (\<not> c > U \<and> c < L \<longrightarrow>
                direction st' = 1 \<and> current_index st' = Some (L + (L - c))
                \<and> cycle_completed st')
           \<and> (\<not> c > U \<and> \<not> c < L \<longrightarrow>
                direction st' = direction st3 \<and> current_index st' = Some c
                \<and> \<not> cycle_completed st')
           \<and> (cycle_completed st' \<longrightarrow> \<not> c > U))"
proof -
  let ?c = "i + step a * direction st3"
  let ?U = "upper_bound ul vl e"
  let ?L = "lower_bound ul (start a)"
  have ri: "snd (range_iterator B st a) = snd (step_from a vl e ul i st3)"
    using assms(2) by (simp add: range_iterator_def)
  have ns: "next_step (mode a) ul (int (length (list_of vl))) (start a) e (step a) i (direction st3)
          = (if ?c > ?U then Inr (?U - (?c - ?U), - 1, False)
             else if ?c < ?L then Inr (?L + (?L - ?c), 1, True)
             else Inr (?c, direction st3, False))"
    using assms(1) by (simp add: next_step_bounce upper_bound_def lower_bound_def Let_def)
  show ?thesis
  proof (cases "?c > ?U")
    case True
    then show ?thesis
      using ri step_from_state [OF assms(3), of a e st3 "?U - (?c - ?U)" "- 1" False] ns
      by (simp add: Let_def)
  next
    case False
    show ?thesis
    proof (cases "?c < ?L")
      case True
      then show ?thesis
        using False ri step_from_state [OF assms(3), of a e st3 "?L + (?L - ?c)" 1 True] ns
        by (simp add: Let_def)
    next
      case nl: False
      then show ?thesis
        using False ri step_from_state [OF assms(3), of a e st3 ?c "direction st3" False] ns
        by (simp add: Let_def)
    qed
  qed
qed


lemma bounce_st2_eq:
  "bounce_st2 = \<lparr> current_index = Some 4, direction = 1, cycle_completed = False,
       prev_custom_values = [], prev_start = Some 0, prev_end = Some 5,
       prev_step = Some 2, prev_mode = Some ''bounce'', prev_value_list_hash = None \<rparr>"
  by (simp add: bounce_st2_def eval_nat_numeral bounce_args_def init_def phase_defs)

lemma bounce_st5_eq:
  "bounce_st5 = \<lparr> current_index = Some 0, direction = - 1, cycle_completed = False,
       prev_custom_values = [], prev_start = Some 0, prev_end = Some 5,
       prev_step = Some 2, prev_mode = Some ''bounce'', prev_value_list_hash = None \<rparr>"
  by (simp add: bounce_st5_def eval_nat_numeral bounce_args_def init_def phase_defs)

lemma inverted_state_eq:
  "inverted_state = \<lparr> current_index = Some 4, direction = - 1, cycle_completed = False,
       prev_custom_values = [], prev_start = Some 5, prev_end = Some 1,
       prev_step = Some 1, prev_mode = Some ''bounce'',
       prev_value_list_hash =
         Some (py_hash ref_builtins [IntV 0, IntV 1, IntV 2, IntV 3, IntV 4, IntV 5]) \<rparr>"
  by (simp add: inverted_state_def inverted_list_args_def init_def phase_defs)

text \<open>
  With start 0, end 5, step 2: the third call rebounds at the upper bound (candidate 6,
  index 4, direction -1, flag False), the sixth at the lower bound (candidate -2,
  index 2, direction +1, flag True).
\<close>

theorem bounce_reflects_at_the_bounds_witness:
  "mode bounce_args = ''bounce''
   \<and> before_step ref_builtins bounce_st2 bounce_args = Inr (None, 5, False, 4, bounce_st2)
   \<and> value_at False None 4 = Inr (IntV 4)
   \<and> direction (snd (range_iterator ref_builtins bounce_st2 bounce_args)) = - 1
   \<and> current_index (snd (range_iterator ref_builtins bounce_st2 bounce_args)) = Some 4
   \<and> \<not> cycle_completed (snd (range_iterator ref_builtins bounce_st2 bounce_args))
   \<and> before_step ref_builtins bounce_st5 bounce_args = Inr (None, 5, False, 0, bounce_st5)
   \<and> value_at False None 0 = Inr (IntV 0)
   \<and> direction (snd (range_iterator ref_builtins bounce_st5 bounce_args)) = 1
   \<and> current_index (snd (range_iterator ref_builtins bounce_st5 bounce_args)) = Some 2
   \<and> cycle_completed (snd (range_iterator ref_builtins bounce_st5 bounce_args))"
proof -
  have m: "mode bounce_args = ''bounce''" by (simp add: bounce_args_def)
  have b2: "before_step ref_builtins bounce_st2 bounce_args = Inr (None, 5, False, 4, bounce_st2)"
    by (simp add: bounce_st2_eq bounce_args_def before_step_def detect_changes_def
          resolve_source_def parse_custom_values_def init_or_reset_def clamp_to_list_def)
  have b5: "before_step ref_builtins bounce_st5 bounce_args = Inr (None, 5, False, 0, bounce_st5)"
    by (simp add: bounce_st5_eq bounce_args_def before_step_def detect_changes_def
          resolve_source_def parse_custom_values_def init_or_reset_def clamp_to_list_def)
  have v4: "value_at False None 4 = Inr (IntV 4)" by (simp add: value_at_def)
  have v0: "value_at False None 0 = Inr (IntV 0)" by (simp add: value_at_def)
  have s: "step bounce_args = 2" "start bounce_args = 0" by (simp_all add: bounce_args_def)
  have d: "direction bounce_st2 = 1" "direction bounce_st5 = - 1"
    by (simp_all add: bounce_st2_eq bounce_st5_eq)
  from bounce_reflects_at_the_bounds [OF m b2 v4]
  have r2: "direction (snd (range_iterator ref_builtins bounce_st2 bounce_args)) = - 1
   \<and> current_index (snd (range_iterator ref_builtins bounce_st2 bounce_args)) = Some 4
   \<and> \<not> cycle_completed (snd (range_iterator ref_builtins bounce_st2 bounce_args))"
    by (simp add: Let_def upper_bound_def lower_bound_def s d)
  from bounce_reflects_at_the_bounds [OF m b5 v0]
  have r5: "direction (snd (range_iterator ref_builtins bounce_st5 bounce_args)) = 1
   \<and> current_index (snd (range_iterator ref_builtins bounce_st5 bounce_args)) = Some 2
   \<and> cycle_completed (snd (range_iterator ref_builtins bounce_st5 bounce_args))"
    by (simp add: Let_def upper_bound_def lower_bound_def s d)
  show ?thesis using m b2 v4 r2 b5 v0 r5 by simp
qed

text \<open>
  Claim C3 as stated fails where a candidate is below \<open>L\<close> and above \<open>U\<close> at once, which
  start 5 and end 1 allow: a first call with a list of six elements leaves index 4 and
  direction -1; the next call, without the list, has the candidate 3 < 5 = L, and the
  code takes the upper branch (3 > 1 = U): direction -1, index -1, flag False.
\<close>

theorem bounce_below_lower_bound_takes_upper_branch:
  "mode inverted_range_args = ''bounce''
   \<and> before_step ref_builtins inverted_state inverted_range_args
       = Inr (None, 1, False, 4, inverted_state)
   \<and> 4 + step inverted_range_args * direction inverted_state = 3
   \<and> 3 < lower_bound False (start inverted_range_args)
   \<and> fst (range_iterator ref_builtins inverted_state inverted_range_args)
       = Inr (IntV 4, IntV (- 1), False)
   \<and> direction (snd (range_iterator ref_builtins inverted_state inverted_range_args)) = - 1
   \<and> current_index (snd (range_iterator ref_builtins inverted_state inverted_range_args))
       = Some (- 1)
   \<and> \<not> cycle_completed (snd (range_iterator ref_builtins inverted_state inverted_range_args))"
  by (simp add: inverted_state_eq inverted_range_args_def inverted_list_args_def lower_bound_def
        phase_defs)

subsection \<open>The stored index and the bounds\<close>

lemma switch_state_eq:
  "switch_state = \<lparr> current_index = Some 0, direction = 1, cycle_completed = True,
       prev_custom_values = [], prev_start = Some 2, prev_end = Some 3,
       prev_step = Some 1, prev_mode = Some ''cycle'',
       prev_value_list_hash = Some (py_hash ref_builtins [IntV 7, IntV 8, IntV 9]) \<rparr>"
  by (simp add: switch_state_def switch_list_args_def init_def phase_defs)

text \<open>
  Claim C2 as stated fails for a stored index that the current source did not produce.
  With start 2, end 3, step 1, mode cycle: the first call, with the list [7, 8, 9],
  wraps to list index 0; the second call, without the list, changes none of the compared
  arguments, is not reinitialised, works on the range from index 0 and commits 1, which
  is below start.
\<close>

theorem stored_index_leaves_the_range:
  "fst (range_iterator ref_builtins init switch_list_args) = Inr (IntV 9, IntV 7, True)
   \<and> current_index switch_state = Some 0
   \<and> resolve_source ref_builtins switch_range_args = Inr (None, 3, False)
   \<and> fst (range_iterator ref_builtins switch_state switch_range_args)
       = Inr (IntV 0, IntV 1, False)
   \<and> current_index (snd (range_iterator ref_builtins switch_state switch_range_args)) = Some 1
   \<and> \<not> (start switch_range_args \<le> 1 \<and> 1 \<le> end_arg switch_range_args)"
  by (simp add: switch_state_eq switch_range_args_def switch_list_args_def init_def phase_defs)

lemma step_from_snd:
  "snd (step_from a vl e ul i st3) =
     (case value_at ul vl i of
        Inl err \<Rightarrow> st3
      | Inr cur \<Rightarrow>
          (case next_step (mode a) ul (int (length (list_of vl))) (start a) e (step a) i
                  (direction st3) of
             Inl err \<Rightarrow> st3
           | Inr (j, d, cc) \<Rightarrow>
               st3\<lparr>direction := d, cycle_completed := cc, current_index := Some j\<rparr>))"
  by (simp add: step_from_def Let_def split: sum.split prod.split)

lemma next_step_in_bounds:
  assumes n: "next_step m ul len s e stp i d = Inr (j, d', cc)"
    and stp: "1 \<le> stp"
    and lo: "(if ul then 0 else s) \<le> i" and hi: "i \<le> (if ul then len - 1 else e)"
    and dir: "d = 1 \<or> (m = ''bounce'' \<and> d = - 1)"
    and wide: "m = ''bounce'' \<longrightarrow> stp \<le> (if ul then len - 1 else e) - (if ul then 0 else s)"
  shows "(if ul then 0 else s) \<le> j \<and> j \<le> (if ul then len - 1 else e)
         \<and> (d' = 1 \<or> (m = ''bounce'' \<and> d' = - 1))"
proof (cases ul)
  case True
  then have len: "0 < len" using lo hi by simp
  have md: "\<And>x. 0 \<le> x mod len \<and> x mod len \<le> len - 1"
    using len by (simp add: zle_diff1_eq)
  from dir show ?thesis
  proof
    assume "d = 1"
    then show ?thesis using n stp lo hi wide True md [of "i + stp"]
      by (auto simp add: next_step_def Let_def split: if_splits)
  next
    assume "m = ''bounce'' \<and> d = - 1"
    then show ?thesis using n stp lo hi wide True
      by (auto simp add: next_step_def Let_def split: if_splits)
  qed
next
  case False
  from dir show ?thesis
  proof
    assume "d = 1"
    then show ?thesis using n stp lo hi wide False
      by (auto simp add: next_step_def Let_def split: if_splits)
  next
    assume "m = ''bounce'' \<and> d = - 1"
    then show ?thesis using n stp lo hi wide False
      by (auto simp add: next_step_def Let_def split: if_splits)
  qed
qed


lemma resolve_source_bounds:
  assumes "resolve_source B a = Inr (vl, e, ul)"
  shows "ul \<longrightarrow> 0 < length (list_of vl)" and "\<not> ul \<longrightarrow> e = end_arg a"
proof -
  show "ul \<longrightarrow> 0 < length (list_of vl)"
    using assms
    by (auto simp add: resolve_source_def list_of_def Let_def split: sum.splits option.splits)
  show "\<not> ul \<longrightarrow> e = end_arg a"
  proof
    assume nu: "\<not> ul"
    show "e = end_arg a"
    proof (cases "parse_custom_values B (custom_values a)")
      case (Inl err)
      then show ?thesis using assms by (simp add: resolve_source_def)
    next
      case (Inr cl)
      show ?thesis
      proof (cases cl)
        case None
        then show ?thesis using assms Inr by (simp add: resolve_source_def Let_def)
      next
        case (Some l)
        then have "l \<noteq> []" using parse_Some_nonempty Inr by simp
        then show ?thesis using assms Inr Some nu by (simp add: resolve_source_def Let_def)
      qed
    qed
  qed
qed

lemma entry_after_reset_in_bounds:
  assumes b: "before_step B st a = Inr (vl, e, ul, i, st3)"
    and r: "fst (detect_changes B st a) \<or> current_index st = None"
    and s: "0 \<le> start a" "start a \<le> end_arg a"
  shows "lower_bound ul (start a) \<le> i \<and> i \<le> upper_bound ul vl e \<and> direction st3 = 1"
proof -
  have i: "i = (if ul \<and> start a > int (length (list_of vl)) - 1
                then int (length (list_of vl)) - 1 else start a)"
    using before_step_index(2) [OF b] r by (simp add: Let_def)
  have d: "direction st3 = 1" using before_step_index(3) [OF b] r by simp
  have src: "resolve_source B a = Inr (vl, e, ul)" using before_step_source [OF b] .
  show ?thesis
  proof (cases ul)
    case True
    then have "0 < length (list_of vl)" using resolve_source_bounds(1) [OF src] by simp
    then show ?thesis using True i d s by (auto simp add: lower_bound_def upper_bound_def)
  next
    case False
    then have "e = end_arg a" using resolve_source_bounds(2) [OF src] by simp
    then show ?thesis using False i d s by (simp add: lower_bound_def upper_bound_def)
  qed
qed

text \<open>
  Claim C2, as the code has it: a call with step at least 1 whose step starts from an
  index within the active bounds (0 and the last list position with a list, start and
  end without) commits an index within the same bounds, in cycle and once mode, and in
  bounce mode when step is at most the width of the bounds. The step starts within the
  bounds after every initialisation or reset when 0 \<le> start \<le> end, and after a call
  that left the index within the same bounds with its direction (+1, or -1 in bounce
  mode): the property is an invariant of the calls on one source.
\<close>

theorem stored_index_stays_in_bounds:
  assumes b: "before_step B st a = Inr (vl, e, ul, i, st3)"
    and stp: "1 \<le> step a"
    and wide: "mode a = ''bounce'' \<longrightarrow>
                 step a \<le> upper_bound ul vl e - lower_bound ul (start a)"
    and entry: "((fst (detect_changes B st a) \<or> current_index st = None)
                   \<and> 0 \<le> start a \<and> start a \<le> end_arg a)
                \<or> (lower_bound ul (start a) \<le> i \<and> i \<le> upper_bound ul vl e
                    \<and> (direction st3 = 1 \<or> (mode a = ''bounce'' \<and> direction st3 = - 1)))"
  shows "\<exists>j. current_index (snd (range_iterator B st a)) = Some j
             \<and> lower_bound ul (start a) \<le> j \<and> j \<le> upper_bound ul vl e
             \<and> (direction (snd (range_iterator B st a)) = 1
                 \<or> (mode a = ''bounce'' \<and> direction (snd (range_iterator B st a)) = - 1))"
proof -
  let ?L = "lower_bound ul (start a)" and ?U = "upper_bound ul vl e"
  have inb: "?L \<le> i \<and> i \<le> ?U
             \<and> (direction st3 = 1 \<or> (mode a = ''bounce'' \<and> direction st3 = - 1))"
    using entry entry_after_reset_in_bounds [OF b] by blast
  have ci: "current_index st3 = Some i" using before_step_index(1) [OF b] .
  have ri: "snd (range_iterator B st a) = snd (step_from a vl e ul i st3)"
    using b by (simp add: range_iterator_def)
  show ?thesis
  proof (cases "value_at ul vl i")
    case (Inl err)
    then have "snd (range_iterator B st a) = st3" using ri by (simp add: step_from_snd)
    then show ?thesis using ci inb by simp
  next
    case (Inr cur)
    show ?thesis
    proof (cases "next_step (mode a) ul (int (length (list_of vl))) (start a) e (step a) i
                    (direction st3)")
      case (Inl err)
      then have "snd (range_iterator B st a) = st3" using ri Inr by (simp add: step_from_snd)
      then show ?thesis using ci inb by simp
    next
      case nx: (Inr t)
      obtain j d cc where t: "t = (j, d, cc)" by (cases t)
      have n: "next_step (mode a) ul (int (length (list_of vl))) (start a) e (step a) i
                 (direction st3) = Inr (j, d, cc)"
        using nx t by simp
      have st': "snd (range_iterator B st a)
                   = st3\<lparr>direction := d, cycle_completed := cc, current_index := Some j\<rparr>"
        using ri Inr n by (simp add: step_from_snd)
      have "(if ul then 0 else start a) \<le> j
            \<and> j \<le> (if ul then int (length (list_of vl)) - 1 else e)
            \<and> (d = 1 \<or> (mode a = ''bounce'' \<and> d = - 1))"
        using next_step_in_bounds [OF n stp] inb wide
        by (simp add: lower_bound_def upper_bound_def)
      then show ?thesis using st' by (simp add: lower_bound_def upper_bound_def)
    qed
  qed
qed


text \<open>
  The third call of the bounce example (index 4, candidate 6) and the first call of a
  fresh instance with \<open>cycle_args\<close> both commit an index within their bounds.
\<close>

theorem stored_index_stays_in_bounds_witness:
  "before_step ref_builtins bounce_st2 bounce_args = Inr (None, 5, False, 4, bounce_st2)
   \<and> 1 \<le> step bounce_args
   \<and> step bounce_args \<le> upper_bound False None 5 - lower_bound False (start bounce_args)
   \<and> lower_bound False (start bounce_args) \<le> 4 \<and> 4 \<le> upper_bound False None 5
   \<and> direction bounce_st2 = 1
   \<and> (\<exists>j. current_index (snd (range_iterator ref_builtins bounce_st2 bounce_args)) = Some j
           \<and> 0 \<le> j \<and> j \<le> 5)
   \<and> before_step ref_builtins init cycle_args
       = Inr (None, 10, False, 0, snd (detect_changes ref_builtins init cycle_args)
                                    \<lparr>current_index := Some 0, direction := 1,
                                     cycle_completed := False\<rparr>)
   \<and> current_index init = None \<and> 0 \<le> start cycle_args \<and> start cycle_args \<le> end_arg cycle_args
   \<and> (\<exists>j. current_index (snd (range_iterator ref_builtins init cycle_args)) = Some j
           \<and> 0 \<le> j \<and> j \<le> 10)"
proof -
  have b: "before_step ref_builtins bounce_st2 bounce_args = Inr (None, 5, False, 4, bounce_st2)"
    by (simp add: bounce_st2_eq bounce_args_def before_step_def detect_changes_def
          resolve_source_def parse_custom_values_def init_or_reset_def clamp_to_list_def)
  have s: "1 \<le> step bounce_args"
    "step bounce_args \<le> upper_bound False None 5 - lower_bound False (start bounce_args)"
    "lower_bound False (start bounce_args) \<le> 4" "4 \<le> upper_bound False None 5"
    by (simp_all add: bounce_args_def upper_bound_def lower_bound_def)
  have d: "direction bounce_st2 = 1" by (simp add: bounce_st2_eq)
  have r1: "\<exists>j. current_index (snd (range_iterator ref_builtins bounce_st2 bounce_args)) = Some j
           \<and> 0 \<le> j \<and> j \<le> 5"
    using stored_index_stays_in_bounds [OF b s(1)] s d
    by (auto simp add: upper_bound_def lower_bound_def bounce_args_def)
  have b0: "before_step ref_builtins init cycle_args
       = Inr (None, 10, False, 0, snd (detect_changes ref_builtins init cycle_args)
                                    \<lparr>current_index := Some 0, direction := 1,
                                     cycle_completed := False\<rparr>)"
    by (simp add: before_step_unfold resolve_source_def parse_empty init_or_reset_def
          clamp_to_list_def detect_changes_state cycle_args_def init_def)
  have c: "current_index init = None" "0 \<le> start cycle_args" "start cycle_args \<le> end_arg cycle_args"
    "1 \<le> step cycle_args" "mode cycle_args \<noteq> ''bounce''"
    by (simp_all add: init_def cycle_args_def)
  have r2: "\<exists>j. current_index (snd (range_iterator ref_builtins init cycle_args)) = Some j
           \<and> 0 \<le> j \<and> j \<le> 10"
    using stored_index_stays_in_bounds [OF b0 c(4)] c
    by (auto simp add: upper_bound_def lower_bound_def cycle_args_def)
  show ?thesis using b s d r1 b0 c r2 by simp
qed

subsection \<open>An exception of the parse that is not caught\<close>

text \<open>
  \<^verbatim>\<open>float("inf")\<close> succeeds, \<^verbatim>\<open>int\<close> of it raises OverflowError, and the
  \<^verbatim>\<open>try\<close> of line 160 catches ValueError only: the call raises after the snapshot is
  updated and before the cursor is initialised.
\<close>

lemma parse_inf: "parse_custom_values ref_builtins ''inf'' = Inl OverflowError"
  by code_simp

lemma infinite_custom_value_raises_OverflowError:
  "range_iterator ref_builtins init (cycle_args\<lparr>custom_values := ''inf''\<rparr>)
     = (Inl OverflowError,
        \<lparr> current_index = None, direction = 1, cycle_completed = False,
          prev_custom_values = ''inf'', prev_start = Some 0, prev_end = Some 10,
          prev_step = Some 1, prev_mode = Some ''cycle'', prev_value_list_hash = None \<rparr>)"
  using parse_inf
  by (simp add: cycle_args_def init_def range_iterator_def before_step_def detect_changes_def
        resolve_source_def)

text \<open>
  Claim C6 says that every call has exactly one source. The code does not keep that
  promise for custom\_values "inf": the parse raises OverflowError, which the
  \<^verbatim>\<open>try\<close> of line 160 does not catch, so no source is resolved, the fall back to
  the value list or to the range does not take place, and the call of a fresh instance
  raises with the cursor still uninitialised.
\<close>

theorem infinite_custom_value_resolves_no_source:
  "parse_custom_values ref_builtins (custom_values (cycle_args\<lparr>custom_values := ''inf''\<rparr>))
     = Inl OverflowError
   \<and> resolve_source ref_builtins (cycle_args\<lparr>custom_values := ''inf''\<rparr>) = Inl OverflowError
   \<and> fst (range_iterator ref_builtins init (cycle_args\<lparr>custom_values := ''inf''\<rparr>))
       = Inl OverflowError
   \<and> current_index (snd (range_iterator ref_builtins init
                            (cycle_args\<lparr>custom_values := ''inf''\<rparr>))) = None"
  using parse_inf
  by (simp add: cycle_args_def init_def range_iterator_def before_step_def detect_changes_def
        resolve_source_def)

subsection \<open>Reinitialisation, as a call sees it\<close>

lemma clamp_state_eq:
  "clamp_state = \<lparr> current_index = Some 0, direction = 1, cycle_completed = True,
       prev_custom_values = [], prev_start = Some 5, prev_end = Some 10,
       prev_step = Some 1, prev_mode = Some ''cycle'',
       prev_value_list_hash = Some (py_hash ref_builtins [IntV 1, IntV 2, IntV 3]) \<rparr>"
  by (simp add: clamp_state_def clamp_args_def init_def phase_defs)

lemma before_step_completed:
  assumes "before_step B st a = Inr (vl, e, ul, i, st3)"
  shows "cycle_completed st3 = (if fst (detect_changes B st a) \<or> current_index st = None
                                then False else cycle_completed st)"
  using assms
  by (auto simp add: before_step_unfold init_or_reset_def clamp_to_list_def Let_def
        detect_changes_state split: sum.splits option.splits if_splits)

lemma before_step_after_reset:
  assumes b: "before_step B st a = Inr (vl, e, ul, i, st3)"
    and f: "fst (detect_changes B st a)"
  shows "i = (if ul then min (start a) (int (length (list_of vl)) - 1) else start a)
         \<and> current_index st3 = Some i \<and> direction st3 = 1 \<and> \<not> cycle_completed st3"
  using before_step_index [OF b] before_step_completed [OF b] f
  by (auto simp add: Let_def min_def)

text \<open>
  Claim C8, as the code has it: when custom\_values, start, end, step or mode differs
  from the stored snapshot, or reset\_counter is set, the reset flag is set and the
  outcome of the call does not depend on the cursor that was stored (index, direction,
  flag); a call that gets past the parse of custom\_values then steps from a
  reinitialised cursor: the index is start, or the last list position when a list is
  active and start lies beyond it, the direction is +1 and the completion flag False.
  In particular a call whose step differs from the one of the call before it starts
  from there, whatever position that call had reached.
\<close>

theorem reset_on_any_change:
  "(custom_values a \<noteq> prev_custom_values st \<or> Some (start a) \<noteq> prev_start st
      \<or> Some (end_arg a) \<noteq> prev_end st \<or> Some (step a) \<noteq> prev_step st
      \<or> Some (mode a) \<noteq> prev_mode st \<or> reset_counter a
    \<longrightarrow>
      fst (detect_changes B st a)
      \<and> fst (range_iterator B (st\<lparr>current_index := ci, direction := d,
                                   cycle_completed := c\<rparr>) a)
          = fst (range_iterator B st a)
      \<and> (before_step B st a = Inr (vl, e, ul, i, st3) \<longrightarrow>
            i = (if ul then min (start a) (int (length (list_of vl)) - 1) else start a)
            \<and> current_index st3 = Some i \<and> direction st3 = 1 \<and> \<not> cycle_completed st3
            \<and> range_iterator B st a = step_from a vl e ul i st3))
   \<and> (s' \<noteq> step a
    \<longrightarrow>
      fst (detect_changes B (snd (range_iterator B st a)) (a\<lparr>step := s'\<rparr>))
      \<and> (before_step B (snd (range_iterator B st a)) (a\<lparr>step := s'\<rparr>)
            = Inr (vl', e', ul', i', st3') \<longrightarrow>
            i' = (if ul' then min (start a) (int (length (list_of vl')) - 1) else start a)
            \<and> current_index st3' = Some i' \<and> direction st3' = 1
            \<and> \<not> cycle_completed st3'
            \<and> range_iterator B (snd (range_iterator B st a)) (a\<lparr>step := s'\<rparr>)
                = step_from (a\<lparr>step := s'\<rparr>) vl' e' ul' i' st3'))"
proof (intro conjI impI)
  assume t: "custom_values a \<noteq> prev_custom_values st \<or> Some (start a) \<noteq> prev_start st
      \<or> Some (end_arg a) \<noteq> prev_end st \<or> Some (step a) \<noteq> prev_step st
      \<or> Some (mode a) \<noteq> prev_mode st \<or> reset_counter a"
  show f: "fst (detect_changes B st a)"
    using reset_core [OF t] by blast
  show "fst (range_iterator B (st\<lparr>current_index := ci, direction := d,
                                   cycle_completed := c\<rparr>) a)
          = fst (range_iterator B st a)"
    using reset_core [OF t] by blast
  assume b: "before_step B st a = Inr (vl, e, ul, i, st3)"
  show "i = (if ul then min (start a) (int (length (list_of vl)) - 1) else start a)"
    "current_index st3 = Some i" "direction st3 = 1" "\<not> cycle_completed st3"
    using before_step_after_reset [OF b f] by simp_all
  show "range_iterator B st a = step_from a vl e ul i st3"
    using b by (simp add: range_iterator_def)
next
  assume s: "s' \<noteq> step a"
  show f: "fst (detect_changes B (snd (range_iterator B st a)) (a\<lparr>step := s'\<rparr>))"
    using step_change_sets_flag [OF s] .
  assume b: "before_step B (snd (range_iterator B st a)) (a\<lparr>step := s'\<rparr>)
            = Inr (vl', e', ul', i', st3')"
  show "i' = (if ul' then min (start a) (int (length (list_of vl')) - 1) else start a)"
    "current_index st3' = Some i'" "direction st3' = 1" "\<not> cycle_completed st3'"
    using before_step_after_reset [OF b f] by simp_all
  show "range_iterator B (snd (range_iterator B st a)) (a\<lparr>step := s'\<rparr>)
                = step_from (a\<lparr>step := s'\<rparr>) vl' e' ul' i' st3'"
    using b by (simp add: range_iterator_def)
qed


text \<open>
  Three calls with step 1 leave the index at 3, a fourth leaves it at 4; in both states
  the next call, with step 2, steps from index 0 with direction +1 and returns
  (0, 2, False).
\<close>

theorem reset_on_any_change_witness:
  "Some (step (cycle_args\<lparr>step := 2\<rparr>)) \<noteq> prev_step cycle_st3
   \<and> current_index cycle_st3 = Some 3
   \<and> before_step ref_builtins cycle_st3 (cycle_args\<lparr>step := 2\<rparr>)
       = Inr (None, 10, False, 0,
              \<lparr> current_index = Some 0, direction = 1, cycle_completed = False,
                prev_custom_values = [], prev_start = Some 0, prev_end = Some 10,
                prev_step = Some 2, prev_mode = Some ''cycle'',
                prev_value_list_hash = None \<rparr>)
   \<and> start (cycle_args\<lparr>step := 2\<rparr>) = 0
   \<and> fst (range_iterator ref_builtins cycle_st3 (cycle_args\<lparr>step := 2\<rparr>))
       = Inr (IntV 0, IntV 2, False)
   \<and> (2::int) \<noteq> step cycle_args
   \<and> before_step ref_builtins (snd (range_iterator ref_builtins cycle_st3 cycle_args))
         (cycle_args\<lparr>step := 2\<rparr>)
       = Inr (None, 10, False, 0,
              \<lparr> current_index = Some 0, direction = 1, cycle_completed = False,
                prev_custom_values = [], prev_start = Some 0, prev_end = Some 10,
                prev_step = Some 2, prev_mode = Some ''cycle'',
                prev_value_list_hash = None \<rparr>)
   \<and> range_iterator ref_builtins cycle_st3 (cycle_args\<lparr>step := 2\<rparr>)
       = step_from (cycle_args\<lparr>step := 2\<rparr>) None 10 False 0
           \<lparr> current_index = Some 0, direction = 1, cycle_completed = False,
             prev_custom_values = [], prev_start = Some 0, prev_end = Some 10,
             prev_step = Some 2, prev_mode = Some ''cycle'',
             prev_value_list_hash = None \<rparr>
   \<and> range_iterator ref_builtins (snd (range_iterator ref_builtins cycle_st3 cycle_args))
         (cycle_args\<lparr>step := 2\<rparr>)
       = step_from (cycle_args\<lparr>step := 2\<rparr>) None 10 False 0
           \<lparr> current_index = Some 0, direction = 1, cycle_completed = False,
             prev_custom_values = [], prev_start = Some 0, prev_end = Some 10,
             prev_step = Some 2, prev_mode = Some ''cycle'',
             prev_value_list_hash = None \<rparr>"
proof -
  let ?X = "\<lparr> current_index = Some 0, direction = 1, cycle_completed = False,
                prev_custom_values = [], prev_start = Some 0, prev_end = Some 10,
                prev_step = Some (2::int), prev_mode = Some ''cycle'',
                prev_value_list_hash = None \<rparr>"
  have t: "Some (step (cycle_args\<lparr>step := 2\<rparr>)) \<noteq> prev_step cycle_st3"
    by (simp add: cycle_st3_eq)
  have c: "current_index cycle_st3 = Some 3" by (simp add: cycle_st3_eq)
  have s: "(2::int) \<noteq> step cycle_args" "start (cycle_args\<lparr>step := 2\<rparr>) = 0"
    by (simp_all add: cycle_args_def)
  have b1: "before_step ref_builtins cycle_st3 (cycle_args\<lparr>step := 2\<rparr>)
              = Inr (None, 10, False, 0, ?X)"
    by (simp add: cycle_st3_eq cycle_args_def before_step_def detect_changes_def
          resolve_source_def parse_custom_values_def init_or_reset_def clamp_to_list_def)
  have b2: "before_step ref_builtins (snd (range_iterator ref_builtins cycle_st3 cycle_args))
              (cycle_args\<lparr>step := 2\<rparr>) = Inr (None, 10, False, 0, ?X)"
    by (simp add: cycle_st3_eq cycle_args_def phase_defs)
  have e: "fst (range_iterator ref_builtins cycle_st3 (cycle_args\<lparr>step := 2\<rparr>))
             = Inr (IntV 0, IntV 2, False)"
    by (simp add: cycle_st3_eq cycle_args_def phase_defs)
  have u1: "range_iterator ref_builtins cycle_st3 (cycle_args\<lparr>step := 2\<rparr>)
              = step_from (cycle_args\<lparr>step := 2\<rparr>) None 10 False 0 ?X"
    using t b1
      reset_on_any_change [where a = "cycle_args\<lparr>step := 2\<rparr>" and st = cycle_st3
        and B = ref_builtins and vl = None and e = 10 and ul = False and i = 0 and ?st3.0 = ?X
        and ci = None and d = 1 and c = False and s' = 2
        and vl' = None and e' = 10 and ul' = False and i' = 0 and st3' = ?X]
    by simp
  have u2: "range_iterator ref_builtins (snd (range_iterator ref_builtins cycle_st3 cycle_args))
              (cycle_args\<lparr>step := 2\<rparr>)
              = step_from (cycle_args\<lparr>step := 2\<rparr>) None 10 False 0 ?X"
    using s(1) b2
      reset_on_any_change [where a = cycle_args and st = cycle_st3 and s' = 2
        and B = ref_builtins and vl' = None and e' = 10 and ul' = False and i' = 0
        and st3' = ?X and ci = None and d = 1 and c = False
        and vl = None and e = 10 and ul = False and i = 0 and ?st3.0 = ?X]
    by simp
  from t c b1 s(2) e s(1) b2 u1 u2 show ?thesis
    by - (intro conjI, assumption+)
qed

text \<open>
  Claim C8 as stated fails where start lies beyond the list: with the list [1, 2, 3]
  and start 5, the call after a change of step from 1 to 2 is reinitialised, and the
  clamp of lines 187 to 190 moves the index from start to 2 before the step; the call
  returns (3, 2, True) and stores 1.
\<close>

theorem reset_index_is_clamped_to_the_list:
  "Some (step (clamp_args\<lparr>step := 2\<rparr>)) \<noteq> prev_step clamp_state
   \<and> start (clamp_args\<lparr>step := 2\<rparr>) = 5
   \<and> before_step ref_builtins clamp_state (clamp_args\<lparr>step := 2\<rparr>)
       = Inr (Some [IntV 1, IntV 2, IntV 3], 10, True, 2,
              \<lparr> current_index = Some 2, direction = 1, cycle_completed = False,
                prev_custom_values = [], prev_start = Some 5, prev_end = Some 10,
                prev_step = Some 2, prev_mode = Some ''cycle'',
                prev_value_list_hash = Some (py_hash ref_builtins [IntV 1, IntV 2, IntV 3]) \<rparr>)
   \<and> fst (range_iterator ref_builtins clamp_state (clamp_args\<lparr>step := 2\<rparr>))
       = Inr (IntV 3, IntV 2, True)
   \<and> current_index (snd (range_iterator ref_builtins clamp_state (clamp_args\<lparr>step := 2\<rparr>)))
       = Some 1"
  by (simp add: clamp_state_eq clamp_args_def phase_defs)

end
